theory Spec2Isabelle
  imports Main "HOL-Library.Word" "HOL-Library.Multiset"
begin

section \<open>Data model of \<^verbatim>\<open>simplelru/lru.go\<close>\<close>

text \<open>
  Go's \<^verbatim>\<open>int64\<close> is a 64-bit word read in two's complement: \<open>+\<close> and \<open>-\<close> wrap around,
  comparisons are the signed ones (\<open>\<le>s\<close>, \<open><s\<close>).

  A \<^verbatim>\<open>*list.Element\<close> is an address \<open>elem\<close>. Every element is created by
  \<^verbatim>\<open>PushFront(&entry{key, value, cost})\<close> (lines 68-69) and its \<^verbatim>\<open>Value\<close> field is never
  reassigned, so an element and the \<^verbatim>\<open>*entry\<close> it holds are one object here: the field
  \<open>Value\<close> of the state maps each element to its entry, and writing through the pointer
  (line 59) is an update of that map. The entry is never nil, hence the test at line 85
  is always false and has no branch below.

  Keys and values are \<^verbatim>\<open>interface{}\<close> in Go and type variables here. The field
  \<^verbatim>\<open>value\<close> of an entry is called \<open>val\<close>, since \<open>value\<close> is a keyword of Isabelle.
\<close>

type_synonym int64 = "64 word"
type_synonym elem = nat

record ('k, 'v) entry =
  key :: 'k
  val :: 'v
  cost :: int64

text \<open>
  \<open>NonPositiveSize\<close> is "must provide a positive size" (returned by \<^verbatim>\<open>NewLRU\<close>, a panic in
  \<^verbatim>\<open>Resize\<close>); \<open>CostTooBig cost maxCost\<close> is the panic of \<^verbatim>\<open>Add\<close>; \<open>IndexOutOfRange\<close> is
  the run-time panic of a slice write beyond its length (\<^verbatim>\<open>Keys\<close>).
\<close>

datatype error = NonPositiveSize | CostTooBig int64 int64 | IndexOutOfRange

text \<open>
  The first five fields are those of the Go struct. \<open>evictList\<close> is the sequence of elements
  of the \<^verbatim>\<open>container/list\<close> list, front first. \<open>onEvict\<close> tells whether the callback is
  non-nil; the callback itself is opaque, so each call made to it is appended to the trace
  \<open>notified\<close> (oldest call first). \<open>Value\<close> is the memory holding the entries and \<open>fresh\<close>
  the next address the allocator hands out.
\<close>

record ('k, 'v) LRU =
  maxCost :: int64
  evictList :: "elem list"
  evictListCost :: int64
  items :: "'k \<rightharpoonup> elem"
  onEvict :: bool
  Value :: "elem \<Rightarrow> ('k, 'v) entry"
  fresh :: elem
  notified :: "('k \<times> 'v \<times> int64) list"

subsection \<open>The operations of \<^verbatim>\<open>container/list\<close> that the cache uses\<close>

text \<open>
  The list of Go's standard library, as its documentation describes it: \<^verbatim>\<open>MoveToFront\<close> and
  \<^verbatim>\<open>Remove\<close> leave the list as it is when the element is not in it, \<^verbatim>\<open>Back\<close> is nil on
  an empty list. \<^verbatim>\<open>New\<close> and \<^verbatim>\<open>Init\<close> give the empty list \<open>[]\<close> and \<^verbatim>\<open>Len\<close> is
  \<open>length\<close>. \<^verbatim>\<open>Remove\<close> of the list is called \<open>list_Remove\<close>, \<^verbatim>\<open>Remove\<close> of the cache
  keeps its name.
\<close>

definition MoveToFront :: "elem list \<Rightarrow> elem \<Rightarrow> elem list" where
  "MoveToFront l e = (if e \<in> set l then e # remove1 e l else l)"

definition list_Remove :: "elem list \<Rightarrow> elem \<Rightarrow> elem list" where
  "list_Remove l e = remove1 e l"

definition PushFront :: "elem list \<Rightarrow> elem \<Rightarrow> elem list" where
  "PushFront l e = e # l"

definition Back :: "elem list \<Rightarrow> elem option" where
  "Back l = (if l = [] then None else Some (last l))"

section \<open>The cache\<close>

text \<open>
  \<^verbatim>\<open>NewLRU\<close> (lines 29-41). The first argument is the content of the memory before any
  entry is allocated; no operation reads a cell before writing it.
\<close>

definition NewLRU :: "(elem \<Rightarrow> ('k, 'v) entry) \<Rightarrow> int64 \<Rightarrow> bool \<Rightarrow> error + ('k, 'v) LRU" where
  "NewLRU mem maxCost' onEvict' =
     (if maxCost' \<le>s 0 then Inl NonPositiveSize
      else Inr \<lparr>maxCost = maxCost', evictList = [], evictListCost = 0, items = Map.empty,
                onEvict = onEvict', Value = mem, fresh = 0, notified = []\<rparr>)"

text \<open>\<^verbatim>\<open>callOnEvict\<close> (lines 193-199).\<close>

definition callOnEvict :: "('k, 'v) LRU \<Rightarrow> elem \<Rightarrow> ('k, 'v) LRU" where
  "callOnEvict c e =
     (if \<not> onEvict c then c
      else c\<lparr>notified := notified c @ [(key (Value c e), val (Value c e), cost (Value c e))]\<rparr>)"

text \<open>\<^verbatim>\<open>removeElement\<close> (lines 184-190).\<close>

definition removeElement :: "('k, 'v) LRU \<Rightarrow> elem \<Rightarrow> ('k, 'v) LRU" where
  "removeElement c e =
     (let c1 = c\<lparr>evictList := list_Remove (evictList c) e\<rparr>;
          kv = Value c1 e;
          c2 = c1\<lparr>items := (items c1)(key kv := None)\<rparr>;
          c3 = c2\<lparr>evictListCost := evictListCost c2 - cost kv\<rparr>
      in callOnEvict c3 e)"

text \<open>\<^verbatim>\<open>removeOldest\<close> (lines 176-181).\<close>

definition removeOldest :: "('k, 'v) LRU \<Rightarrow> ('k, 'v) LRU" where
  "removeOldest c = (case Back (evictList c) of None \<Rightarrow> c | Some ent \<Rightarrow> removeElement c ent)"

text \<open>
  The loop of lines 74-77 and, word for word, of lines 168-171:
  \<^verbatim>\<open>for c.evictListCost > c.maxCost { evicted++; c.removeOldest() }\<close>.
  On an empty list \<^verbatim>\<open>removeOldest\<close> changes nothing, so the loop may run forever: the
  result is \<open>None\<close> then, and \<open>Some\<close> of the final state and counter when the loop exits.
  The counter is a \<open>nat\<close>: it counts iterations, each of which removes an element of a
  list that fits in memory.
\<close>

partial_function (option) evictLoop ::
  "('k, 'v) LRU \<Rightarrow> nat \<Rightarrow> (('k, 'v) LRU \<times> nat) option" where
  "evictLoop c evicted =
     (if maxCost c <s evictListCost c then evictLoop (removeOldest c) (Suc evicted)
      else Some (c, evicted))"

text \<open>
  \<^verbatim>\<open>Add\<close> (lines 55-79). The result is \<open>None\<close> when the call never returns; otherwise the
  store as the call leaves it, with \<open>Inl\<close> the panic or \<open>Inr\<close> the number of evictions.
\<close>

definition Add ::
  "('k, 'v) LRU \<Rightarrow> 'k \<Rightarrow> 'v \<Rightarrow> int64 \<Rightarrow> (('k, 'v) LRU \<times> (error + nat)) option" where
  "Add c k v cost' =
     (case items c k of
        Some ent \<Rightarrow>
          (let c1 = c\<lparr>evictList := MoveToFront (evictList c) ent\<rparr>;
               c2 = c1\<lparr>Value := (Value c1)(ent := (Value c1 ent)\<lparr>val := v\<rparr>)\<rparr>
           in Some (c2, Inr 0))
      | None \<Rightarrow>
          if maxCost c <s cost' then Some (c, Inl (CostTooBig cost' (maxCost c)))
          else
            (let ent = fresh c;
                 c1 = c\<lparr>Value := (Value c)(ent := \<lparr>key = k, val = v, cost = cost'\<rparr>),
                        fresh := Suc ent\<rparr>;
                 c2 = c1\<lparr>evictList := PushFront (evictList c1) ent\<rparr>;
                 c3 = c2\<lparr>evictListCost := evictListCost c2 + cost'\<rparr>;
                 c4 = c3\<lparr>items := (items c3)(k \<mapsto> ent)\<rparr>
             in map_option (\<lambda>(c', evicted). (c', Inr evicted)) (evictLoop c4 0)))"

text \<open>
  \<^verbatim>\<open>Get\<close> (lines 82-91). A Go result \<^verbatim>\<open>(value, ok)\<close> is a pair whose first component is
  \<open>None\<close> for \<^verbatim>\<open>nil\<close>. The entry of an element is never nil, so lines 85-87 return
  nothing.
\<close>

definition Get :: "('k, 'v) LRU \<Rightarrow> 'k \<Rightarrow> ('k, 'v) LRU \<times> 'v option \<times> bool" where
  "Get c k =
     (case items c k of
        Some ent \<Rightarrow> (c\<lparr>evictList := MoveToFront (evictList c) ent\<rparr>, Some (val (Value c ent)), True)
      | None \<Rightarrow> (c, None, False))"

text \<open>\<^verbatim>\<open>Contains\<close> (lines 95-98) and \<^verbatim>\<open>Peek\<close> (lines 102-108) assign nothing.\<close>

definition Contains :: "('k, 'v) LRU \<Rightarrow> 'k \<Rightarrow> bool" where
  "Contains c k = (case items c k of Some ent \<Rightarrow> True | None \<Rightarrow> False)"

definition Peek :: "('k, 'v) LRU \<Rightarrow> 'k \<Rightarrow> 'v option \<times> bool" where
  "Peek c k =
     (case items c k of
        Some ent \<Rightarrow> (Some (val (Value c ent)), True)
      | None \<Rightarrow> (None, False))"

text \<open>\<^verbatim>\<open>Remove\<close> (lines 112-118).\<close>

definition Remove :: "('k, 'v) LRU \<Rightarrow> 'k \<Rightarrow> ('k, 'v) LRU \<times> bool" where
  "Remove c k =
     (case items c k of
        Some ent \<Rightarrow> (removeElement c ent, True)
      | None \<Rightarrow> (c, False))"

text \<open>\<^verbatim>\<open>RemoveOldest\<close> (lines 121-129): the entry is read after the element is removed.\<close>

definition RemoveOldest :: "('k, 'v) LRU \<Rightarrow> ('k, 'v) LRU \<times> 'k option \<times> 'v option \<times> bool" where
  "RemoveOldest c =
     (case Back (evictList c) of
        Some ent \<Rightarrow>
          (let c' = removeElement c ent; kv = Value c' ent
           in (c', Some (key kv), Some (val kv), True))
      | None \<Rightarrow> (c, None, None, False))"

text \<open>\<^verbatim>\<open>GetOldest\<close> (lines 132-139).\<close>

definition GetOldest :: "('k, 'v) LRU \<Rightarrow> 'k option \<times> 'v option \<times> bool" where
  "GetOldest c =
     (case Back (evictList c) of
        Some ent \<Rightarrow> (let kv = Value c ent in (Some (key kv), Some (val kv), True))
      | None \<Rightarrow> (None, None, False))"

text \<open>
  \<^verbatim>\<open>Keys\<close> (lines 142-150). The slice has \<^verbatim>\<open>len(c.items)\<close> slots, all nil at first; the
  loop walks the list from the back and writes slot \<open>0, 1, \<dots>\<close>. A list longer than the
  slice makes a write panic; a shorter one leaves nil slots at the end.
\<close>

definition Keys :: "('k, 'v) LRU \<Rightarrow> error + 'k option list" where
  "Keys c =
     (let n = card (dom (items c));
          ks = map (\<lambda>ent. key (Value c ent)) (rev (evictList c))
      in if length ks \<le> n then Inr (map Some ks @ replicate (n - length ks) None)
         else Inl IndexOutOfRange)"

text \<open>\<^verbatim>\<open>Len\<close> (lines 153-155) and \<^verbatim>\<open>Cost\<close> (lines 158-160).\<close>

definition Len :: "('k, 'v) LRU \<Rightarrow> nat" where
  "Len c = length (evictList c)"

definition Cost :: "('k, 'v) LRU \<Rightarrow> int64" where
  "Cost c = evictListCost c"

text \<open>\<^verbatim>\<open>Resize\<close> (lines 163-173), with the result type of \<open>Add\<close>.\<close>

definition Resize ::
  "('k, 'v) LRU \<Rightarrow> int64 \<Rightarrow> (('k, 'v) LRU \<times> (error + nat)) option" where
  "Resize c maxCost' =
     (if maxCost' \<le>s 0 then Some (c, Inl NonPositiveSize)
      else map_option (\<lambda>(c', evicted). (c', Inr evicted)) (evictLoop (c\<lparr>maxCost := maxCost'\<rparr>) 0))"

text \<open>
  \<^verbatim>\<open>Purge\<close> (lines 44-52). Go fixes no order for \<^verbatim>\<open>range c.items\<close>: the order in which
  the keys come is the argument \<open>order\<close>. A key deleted before the loop reaches it is not
  produced, as in Go.
\<close>

definition purge_visit :: "'k \<Rightarrow> ('k, 'v) LRU \<Rightarrow> ('k, 'v) LRU" where
  "purge_visit k c =
     (case items c k of
        None \<Rightarrow> c
      | Some v \<Rightarrow> (let c1 = callOnEvict c v in c1\<lparr>items := (items c1)(k := None)\<rparr>))"

definition Purge :: "('k, 'v) LRU \<Rightarrow> 'k list \<Rightarrow> ('k, 'v) LRU" where
  "Purge c order =
     (let c1 = fold purge_visit order c;
          c2 = c1\<lparr>evictList := []\<rparr>
      in c2\<lparr>evictListCost := 0\<rparr>)"

section \<open>Sequences of calls\<close>

text \<open>
  A public method call with its arguments. \<open>OpPurge order\<close> is a call of \<^verbatim>\<open>Purge\<close> in which
  the map iteration produces the keys in the order \<open>order\<close>.
\<close>

datatype ('k, 'v) op =
    OpAdd 'k 'v int64 | OpGet 'k | OpContains 'k | OpPeek 'k | OpRemove 'k
  | OpRemoveOldest | OpGetOldest | OpKeys | OpLen | OpCost | OpResize int64 | OpPurge "'k list"

text \<open>
  \<open>step c x\<close> is the store after the call \<open>x\<close> when the call returns normally, and \<open>None\<close>
  when it panics or never returns. \<^verbatim>\<open>Purge\<close> can only be called with an order that
  enumerates the keys of \<^verbatim>\<open>c.items\<close>, each once.
\<close>

fun step :: "('k, 'v) LRU \<Rightarrow> ('k, 'v) op \<Rightarrow> ('k, 'v) LRU option" where
  "step c (OpAdd k v cost') =
     (case Add c k v cost' of Some (c', Inr evicted) \<Rightarrow> Some c' | _ \<Rightarrow> None)"
| "step c (OpGet k) = Some (fst (Get c k))"
| "step c (OpContains k) = Some c"
| "step c (OpPeek k) = Some c"
| "step c (OpRemove k) = Some (fst (Remove c k))"
| "step c OpRemoveOldest = Some (fst (RemoveOldest c))"
| "step c OpGetOldest = Some c"
| "step c OpKeys = (case Keys c of Inr ks \<Rightarrow> Some c | Inl e \<Rightarrow> None)"
| "step c OpLen = Some c"
| "step c OpCost = Some c"
| "step c (OpResize maxCost') =
     (case Resize c maxCost' of Some (c', Inr evicted) \<Rightarrow> Some c' | _ \<Rightarrow> None)"
| "step c (OpPurge order) =
     (if distinct order \<and> set order = dom (items c) then Some (Purge c order) else None)"

fun run :: "('k, 'v) LRU \<Rightarrow> ('k, 'v) op list \<Rightarrow> ('k, 'v) LRU option" where
  "run c [] = Some c"
| "run c (x # xs) = (case step c x of None \<Rightarrow> None | Some c' \<Rightarrow> run c' xs)"

text \<open>
  The loop of the README, \<^verbatim>\<open>for ... { l.Add(k, v, cost) }\<close>, over a list of arguments: the
  final store and the sum of the numbers of evictions that the calls returned.
\<close>

fun addAll :: "('k, 'v) LRU \<Rightarrow> ('k \<times> 'v \<times> int64) list \<Rightarrow> (('k, 'v) LRU \<times> nat) option" where
  "addAll c [] = Some (c, 0)"
| "addAll c ((k, v, cost') # rest) =
     (case Add c k v cost' of
        Some (c', Inr evicted) \<Rightarrow>
          (case addAll c' rest of
             Some (c'', later) \<Rightarrow> Some (c'', evicted + later)
           | None \<Rightarrow> None)
      | _ \<Rightarrow> None)"

section \<open>Invariants and auxiliary notions\<close>

text \<open>The arguments of the call of \<^verbatim>\<open>onEvict\<close> for the entry of element \<open>e\<close>.\<close>

definition notice :: "('k, 'v) LRU \<Rightarrow> elem \<Rightarrow> 'k \<times> 'v \<times> int64" where
  "notice c e = (key (Value c e), val (Value c e), cost (Value c e))"

text \<open>The keys from the back of the list to its front.\<close>

definition keysOf :: "('k, 'v) LRU \<Rightarrow> 'k list" where
  "keysOf c = map (\<lambda>e. key (Value c e)) (rev (evictList c))"

text \<open>
  The invariant of the representation: the list has no element twice; the index maps the
  key of every element of the list to that element and has no other key; every element of
  the list is allocated; the accumulator is the sum of the costs in the list (in 64-bit
  arithmetic); the ceiling is positive.
\<close>

definition invar :: "('k, 'v) LRU \<Rightarrow> bool" where
  "invar c \<longleftrightarrow>
     distinct (evictList c)
     \<and> (\<forall>e \<in> set (evictList c). items c (key (Value c e)) = Some e)
     \<and> dom (items c) = (\<lambda>e. key (Value c e)) ` set (evictList c)
     \<and> (\<forall>e \<in> set (evictList c). e < fresh c)
     \<and> evictListCost c = sum_list (map (\<lambda>e. cost (Value c e)) (evictList c))
     \<and> 0 <s maxCost c"

text \<open>
  The accumulator is exact when no cost in the list is negative and the accumulator,
  read as an integer, is the sum of the costs without wrap-around.
\<close>

definition exact :: "('k, 'v) LRU \<Rightarrow> bool" where
  "exact c \<longleftrightarrow>
     (\<forall>e \<in> set (evictList c). 0 \<le> sint (cost (Value c e)))
     \<and> sint (evictListCost c) = sum_list (map (\<lambda>e. sint (cost (Value c e))) (evictList c))"

definition good :: "('k, 'v) LRU \<Rightarrow> bool" where
  "good c \<longleftrightarrow> invar c \<and> exact c \<and> evictListCost c \<le>s maxCost c"

text \<open>
  A call supplies a non-negative cost; a call fits when the insertion it makes does not
  take the sum beyond the largest \<^verbatim>\<open>int64\<close>. A sequence of calls has no overflow when
  every call that returns normally fits the store it is made on.
\<close>

fun nonneg_cost :: "('k, 'v) op \<Rightarrow> bool" where
  "nonneg_cost (OpAdd k v cost') = (0 \<le>s cost')"
| "nonneg_cost _ = True"

definition nonneg_costs :: "('k, 'v) op list \<Rightarrow> bool" where
  "nonneg_costs ops = list_all nonneg_cost ops"

fun fits :: "('k, 'v) LRU \<Rightarrow> ('k, 'v) op \<Rightarrow> bool" where
  "fits c (OpAdd k v cost') =
     (items c k = None \<longrightarrow> sint (evictListCost c) + sint cost' \<le> 2 ^ 63 - 1)"
| "fits c _ = True"

fun no_overflow :: "('k, 'v) LRU \<Rightarrow> ('k, 'v) op list \<Rightarrow> bool" where
  "no_overflow c [] = True"
| "no_overflow c (x # xs) =
     (case step c x of None \<Rightarrow> True | Some c' \<Rightarrow> fits c x \<and> no_overflow c' xs)"

text \<open>The store after lines 68-71 of \<^verbatim>\<open>Add\<close>, and after \<^verbatim>\<open>MoveToFront\<close> on an element.\<close>

definition pushed :: "('k, 'v) LRU \<Rightarrow> 'k \<Rightarrow> 'v \<Rightarrow> int64 \<Rightarrow> ('k, 'v) LRU" where
  "pushed c k v x =
     c\<lparr>Value := (Value c)(fresh c := \<lparr>key = k, val = v, cost = x\<rparr>), fresh := Suc (fresh c),
       evictList := fresh c # evictList c, evictListCost := evictListCost c + x,
       items := (items c)(k \<mapsto> fresh c)\<rparr>"

definition touched :: "('k, 'v) LRU \<Rightarrow> elem \<Rightarrow> ('k, 'v) LRU" where
  "touched c e = c\<lparr>evictList := MoveToFront (evictList c) e\<rparr>"

text \<open>The elements that the loop of \<^verbatim>\<open>Purge\<close> visits, in order, for keys that come once.\<close>

definition visited :: "('k, 'v) LRU \<Rightarrow> 'k list \<Rightarrow> elem list" where
  "visited c ks = concat (map (\<lambda>k. case items c k of None \<Rightarrow> [] | Some e \<Rightarrow> [e]) ks)"

text \<open>
  A store of ceiling 128 whose entries all cost 2, after \<open>j\<close> insertions of new keys.
\<close>

definition filled :: "('k, 'v) LRU \<Rightarrow> nat \<Rightarrow> bool" where
  "filled c j \<longleftrightarrow>
     invar c \<and> maxCost c = 128 \<and> (\<forall>e \<in> set (evictList c). cost (Value c e) = 2)
     \<and> length (evictList c) = min j 64"


section \<open>Example stores\<close>

definition mem0 :: "elem \<Rightarrow> (nat, nat) entry" where
  "mem0 = (\<lambda>_. \<lparr>key = 0, val = 0, cost = 0\<rparr>)"

text \<open>The empty store of ceiling 10 with a callback.\<close>

definition store0 :: "(nat, nat) LRU" where
  "store0 =
     \<lparr>maxCost = 10, evictList = [], evictListCost = 0, items = Map.empty, onEvict = True,
      Value = mem0, fresh = 0, notified = []\<rparr>"

text \<open>A store of ceiling 10 holding key 1 (value 11, cost 4, oldest) and key 2 (value 22, cost 5).\<close>

definition store12 :: "(nat, nat) LRU" where
  "store12 =
     \<lparr>maxCost = 10, evictList = [1, 0], evictListCost = 9,
      items = [1 \<mapsto> 0, 2 \<mapsto> 1], onEvict = True,
      Value = mem0(0 := \<lparr>key = 1, val = 11, cost = 4\<rparr>, 1 := \<lparr>key = 2, val = 22, cost = 5\<rparr>),
      fresh = 2, notified = []\<rparr>"

text \<open>The empty store whose ceiling is the largest \<^verbatim>\<open>int64\<close>, and four calls on it.\<close>

definition store_max :: "(nat, nat) LRU" where
  "store_max =
     \<lparr>maxCost = 2 ^ 63 - 1, evictList = [], evictListCost = 0, items = Map.empty,
      onEvict = False, Value = mem0, fresh = 0, notified = []\<rparr>"

definition overflow_ops :: "(nat, nat) op list" where
  "overflow_ops =
     [OpAdd 1 0 (2 ^ 63 - 1), OpAdd 2 0 (2 ^ 63 - 1), OpResize 1, OpRemove 1]"

text \<open>The store that these four calls leave: the ceiling is 1 and the accumulator \<open>2^63 - 1\<close>.\<close>

definition store_over :: "(nat, nat) LRU" where
  "store_over =
     \<lparr>maxCost = 1, evictList = [1], evictListCost = 2 ^ 63 - 1, items = [2 \<mapsto> 1],
      onEvict = False,
      Value = mem0(0 := \<lparr>key = 1, val = 0, cost = 2 ^ 63 - 1\<rparr>,
                   1 := \<lparr>key = 2, val = 0, cost = 2 ^ 63 - 1\<rparr>),
      fresh = 2, notified = []\<rparr>"

text \<open>The empty store of ceiling 5 with a callback, and three calls on it.\<close>

definition store5 :: "(nat, nat) LRU" where
  "store5 =
     \<lparr>maxCost = 5, evictList = [], evictListCost = 0, items = Map.empty, onEvict = True,
      Value = mem0, fresh = 0, notified = []\<rparr>"

definition small_ops :: "(nat, nat) op list" where
  "small_ops = [OpAdd 1 10 2, OpAdd 2 20 4, OpRemoveOldest]"

text \<open>
  The example of the README: a store of ceiling 128 and the keys \<open>0, \<dots>, 255\<close>, each to be
  added with cost 2.
\<close>

definition store128 :: "(nat, nat) LRU" where
  "store128 =
     \<lparr>maxCost = 128, evictList = [], evictListCost = 0, items = Map.empty, onEvict = True,
      Value = mem0, fresh = 0, notified = []\<rparr>"

definition readme_calls :: "(nat \<times> nat) list" where
  "readme_calls = map (\<lambda>i. (i, 0)) [0..<256]"

text \<open>The empty store of ceiling 2 with a callback.\<close>

definition store2 :: "(nat, nat) LRU" where
  "store2 =
     \<lparr>maxCost = 2, evictList = [], evictListCost = 0, items = Map.empty, onEvict = True,
      Value = mem0, fresh = 0, notified = []\<rparr>"

section \<open>Lemmas\<close>

subsection \<open>Signed 64-bit arithmetic\<close>

lemma sint64_range: "- (2 ^ 63) \<le> sint (a :: int64)" "sint (a :: int64) < 2 ^ 63"
  using sint_ge [of a] sint_lt [of a] by simp_all

lemma sint_sub_exact:
  fixes a b :: int64
  assumes "- (2 ^ 63) \<le> sint a - sint b" "sint a - sint b < 2 ^ 63"
  shows "sint (a - b) = sint a - sint b"
  using assms by (simp add: sint_word_ariths signed_take_bit_int_eq_self)

lemma sint_add_exact:
  fixes a b :: int64
  assumes "- (2 ^ 63) \<le> sint a + sint b" "sint a + sint b < 2 ^ 63"
  shows "sint (a + b) = sint a + sint b"
  using assms by (simp add: sint_word_ariths signed_take_bit_int_eq_self)

lemma sint_small: "n < 2 ^ 63 \<Longrightarrow> sint (of_nat n :: int64) = int n"
  by (simp add: signed_of_nat signed_take_bit_int_eq_self)

lemma twice_over_128: "n \<le> 65 \<Longrightarrow> (128 <s (of_nat n * 2 :: int64)) \<longleftrightarrow> 64 < n"
proof -
  assume n: "n \<le> 65"
  then have "n * 2 < 2 ^ 63" by simp
  then have "sint (of_nat (n * 2) :: int64) = int (n * 2)" by (rule sint_small)
  then have "sint (of_nat n * 2 :: int64) = int n * 2" by simp
  then show ?thesis by (auto simp add: word_sless_alt)
qed

subsection \<open>Lists\<close>

lemma remove1_last: "distinct l \<Longrightarrow> l \<noteq> [] \<Longrightarrow> remove1 (last l) l = butlast l"
  by (induction l) (auto)

lemma drop_butlast_last:
  assumes "l \<noteq> []" "k < length l"
  shows "drop k l = drop k (butlast l) @ [last l]"
proof -
  have "drop k (butlast l @ [last l]) = drop k (butlast l) @ [last l]"
    using assms by (simp del: append_butlast_last_id)
  with assms show ?thesis by simp
qed

lemma map_remove1_inj:
  "distinct l \<Longrightarrow> inj_on f (set l) \<Longrightarrow> e \<in> set l \<Longrightarrow>
   map f (remove1 e l) = filter (\<lambda>y. y \<noteq> f e) (map f l)"
proof (induction l)
  case Nil then show ?case by simp
next
  case (Cons a l)
  show ?case
  proof (cases "a = e")
    case True
    have "filter (\<lambda>y. y \<noteq> f e) (map f l) = map f l"
      using Cons.prems True by (auto simp: filter_id_conv inj_on_def)
    with True show ?thesis by simp
  next
    case False
    with Cons.prems have "f a \<noteq> f e" "e \<in> set l" by (auto simp: inj_on_def)
    with Cons False show ?thesis by simp
  qed
qed

lemma set_MoveToFront: "set (MoveToFront l e) = set l"
proof (cases "e \<in> set l")
  case True
  then have "insert e (set (remove1 e l)) = set l"
    using set_remove1_subset [of e l] in_set_remove1 [of _ e l] by blast
  with True show ?thesis by (simp add: MoveToFront_def)
next
  case False then show ?thesis by (simp add: MoveToFront_def)
qed

lemma distinct_MoveToFront: "distinct l \<Longrightarrow> distinct (MoveToFront l e)"
  by (auto simp: MoveToFront_def)

lemma sum_list_MoveToFront:
  fixes f :: "elem \<Rightarrow> 'a::comm_monoid_add"
  shows "sum_list (map f (MoveToFront l e)) = sum_list (map f l)"
  by (simp add: MoveToFront_def sum_list_map_remove1)

subsection \<open>The representation invariant\<close>

lemma invar_NewLRU: "NewLRU mem m cb = Inr c \<Longrightarrow> invar c"
  by (auto simp: NewLRU_def invar_def split: if_splits simp: word_sle_eq word_sless_alt)

lemma invar_lookup:
  assumes "invar c" and "items c k = Some e"
  shows "e \<in> set (evictList c)" and "key (Value c e) = k"
proof -
  from assms have "k \<in> (\<lambda>e. key (Value c e)) ` set (evictList c)"
    unfolding invar_def by (metis domI)
  then obtain e' where e': "e' \<in> set (evictList c)" "key (Value c e') = k" by auto
  with assms have "items c k = Some e'" unfolding invar_def by auto
  with assms e' show "e \<in> set (evictList c)" and "key (Value c e) = k" by auto
qed

lemma invar_key_inj:
  assumes "invar c" "e \<in> set (evictList c)" "e' \<in> set (evictList c)"
    "key (Value c e) = key (Value c e')"
  shows "e = e'"
  using assms unfolding invar_def by (metis option.inject)

lemma invar_inj_on: "invar c \<Longrightarrow> inj_on (\<lambda>e. key (Value c e)) (set (evictList c))"
  using invar_key_inj by (fastforce simp: inj_on_def)

lemma invar_fresh: "invar c \<Longrightarrow> fresh c \<notin> set (evictList c)"
  by (auto simp: invar_def)

lemma invar_Keys:
  assumes "invar c"
  shows "Keys c = Inr (map Some (keysOf c))"
    and "set (keysOf c) = dom (items c)" and "distinct (keysOf c)"
proof -
  let ?f = "\<lambda>e. key (Value c e)"
  have inj: "inj_on ?f (set (evictList c))"
    using invar_key_inj [OF assms] by (auto simp: inj_on_def)
  have d: "distinct (evictList c)" using assms by (simp add: invar_def)
  have dm: "dom (items c) = ?f ` set (evictList c)" using assms by (simp add: invar_def)
  have "card (dom (items c)) = length (evictList c)"
    unfolding dm using inj d by (simp add: card_image distinct_card)
  then show "Keys c = Inr (map Some (keysOf c))" by (simp add: Keys_def keysOf_def)
  show "set (keysOf c) = dom (items c)" by (simp add: keysOf_def dm)
  show "distinct (keysOf c)" using inj d by (simp add: keysOf_def distinct_map)
qed

subsection \<open>Removing elements\<close>

lemma removeElement_fields [simp]:
  "evictList (removeElement c e) = remove1 e (evictList c)"
  "items (removeElement c e) = (items c)(key (Value c e) := None)"
  "evictListCost (removeElement c e) = evictListCost c - cost (Value c e)"
  "maxCost (removeElement c e) = maxCost c"
  "Value (removeElement c e) = Value c"
  "fresh (removeElement c e) = fresh c"
  "onEvict (removeElement c e) = onEvict c"
  "notified (removeElement c e) = notified c @ (if onEvict c then [notice c e] else [])"
  by (simp_all add: removeElement_def callOnEvict_def list_Remove_def Let_def notice_def)

lemma invar_removeElement:
  assumes inv: "invar c" and mem: "e \<in> set (evictList c)"
  shows "invar (removeElement c e)"
proof -
  let ?l = "evictList c" and ?f = "\<lambda>e. key (Value c e)"
  have d: "distinct ?l" using inv by (simp add: invar_def)
  have set': "set (remove1 e ?l) = set ?l - {e}" using d by simp
  have neq: "?f e' \<noteq> ?f e" if "e' \<in> set ?l" "e' \<noteq> e" for e'
    using invar_key_inj [OF inv that(1) mem] that(2) by auto
  have 1: "\<forall>e' \<in> set (remove1 e ?l). ((items c)(?f e := None)) (?f e') = Some e'"
    using inv neq by (auto simp: set' invar_def)
  have 2: "dom ((items c)(?f e := None)) = ?f ` set (remove1 e ?l)"
    using inv neq mem by (auto simp: set' invar_def)
  have 3: "evictListCost c - cost (Value c e)
         = sum_list (map (\<lambda>e. cost (Value c e)) (remove1 e ?l))"
    using inv sum_list_map_remove1 [OF mem, of "\<lambda>e. cost (Value c e)"]
    by (simp add: invar_def)
  show ?thesis
    unfolding invar_def using inv d 1 2 3 by (simp add: set') (simp add: invar_def)
qed

lemma removeOldest_nonempty:
  "evictList c \<noteq> [] \<Longrightarrow> removeOldest c = removeElement c (last (evictList c))"
  by (simp add: removeOldest_def Back_def)

lemma removeOldest_empty: "evictList c = [] \<Longrightarrow> removeOldest c = c"
  by (simp add: removeOldest_def Back_def)

lemma invar_removeOldest: "invar c \<Longrightarrow> invar (removeOldest c)"
  by (cases "evictList c = []") (simp_all add: removeOldest_empty removeOldest_nonempty invar_removeElement)

lemma funpow_removeOldest_frame [simp]:
  "maxCost ((removeOldest ^^ n) c) = maxCost c"
  "Value ((removeOldest ^^ n) c) = Value c"
  "fresh ((removeOldest ^^ n) c) = fresh c"
  "onEvict ((removeOldest ^^ n) c) = onEvict c"
proof (induction n)
  case 0
  { case 1 show ?case by simp next
    case 2 show ?case by simp next
    case 3 show ?case by simp next
    case 4 show ?case by simp }
next
  case (Suc n)
  have *: "maxCost (removeOldest d) = maxCost d" "Value (removeOldest d) = Value d"
    "fresh (removeOldest d) = fresh d" "onEvict (removeOldest d) = onEvict d" for d :: "('a, 'b) LRU"
    by (simp_all add: removeOldest_def split: option.splits)
  { case 1 show ?case using Suc by (simp add: *) next
    case 2 show ?case using Suc by (simp add: *) next
    case 3 show ?case using Suc by (simp add: *) next
    case 4 show ?case using Suc by (simp add: *) }
qed

lemma notice_cong: "Value c = Value d \<Longrightarrow> notice c = notice d"
  by (simp add: notice_def fun_eq_iff)

lemma funpow_removeOldest:
  assumes "invar c" and "n \<le> length (evictList c)"
  shows "invar ((removeOldest ^^ n) c)"
    and "evictList ((removeOldest ^^ n) c) = take (length (evictList c) - n) (evictList c)"
    and "items ((removeOldest ^^ n) c) =
           (\<lambda>k. if k \<in> (\<lambda>e. key (Value c e)) ` set (drop (length (evictList c) - n) (evictList c))
                then None else items c k)"
    and "evictListCost ((removeOldest ^^ n) c) =
           evictListCost c
           - sum_list (map (\<lambda>e. cost (Value c e)) (drop (length (evictList c) - n) (evictList c)))"
    and "notified ((removeOldest ^^ n) c) =
           notified c @ (if onEvict c
                         then map (notice c) (rev (drop (length (evictList c) - n) (evictList c)))
                         else [])"
  using assms
proof (induction n arbitrary: c)
  case 0
  { case 1 then show ?case by simp next
    case 2 then show ?case by simp next
    case 3 then show ?case by (simp add: fun_eq_iff) next
    case 4 then show ?case by simp next
    case 5 then show ?case by simp }
next
  case (Suc n)
  { fix c :: "('a, 'b) LRU"
    assume inv: "invar c" and le: "Suc n \<le> length (evictList c)"
    let ?l = "evictList c" and ?c1 = "removeOldest c"
    from le have ne: "?l \<noteq> []" by auto
    have d: "distinct ?l" using inv by (simp add: invar_def)
    have c1: "?c1 = removeElement c (last ?l)" using ne by (rule removeOldest_nonempty)
    have l1: "evictList ?c1 = butlast ?l" by (simp add: c1 remove1_last d ne)
    have inv1: "invar ?c1" using inv by (rule invar_removeOldest)
    have le1: "n \<le> length (evictList ?c1)" using le by (simp add: l1)
    have step: "(removeOldest ^^ Suc n) c = (removeOldest ^^ n) ?c1" by (simp add: funpow_swap1)
    have len: "length (evictList ?c1) - n = length ?l - Suc n" by (simp add: l1)
    have lt: "length ?l - Suc n < length ?l" using le by simp
    have dr: "drop (length ?l - Suc n) ?l = drop (length ?l - Suc n) (butlast ?l) @ [last ?l]"
      using ne lt by (rule drop_butlast_last)
    have V: "Value ?c1 = Value c" by (simp add: c1)
    have A: "invar ((removeOldest ^^ Suc n) c)"
      unfolding step using inv1 le1 by (rule Suc.IH(1))
    have B: "evictList ((removeOldest ^^ Suc n) c) = take (length ?l - Suc n) ?l"
      unfolding step Suc.IH(2) [OF inv1 le1] len l1 using lt by (simp add: take_butlast)
    have C: "items ((removeOldest ^^ Suc n) c) =
           (\<lambda>k. if k \<in> (\<lambda>e. key (Value c e)) ` set (drop (length ?l - Suc n) ?l)
                then None else items c k)"
      unfolding step Suc.IH(3) [OF inv1 le1] len l1 V dr
      by (auto simp: fun_eq_iff c1)
    have D: "evictListCost ((removeOldest ^^ Suc n) c) =
           evictListCost c - sum_list (map (\<lambda>e. cost (Value c e)) (drop (length ?l - Suc n) ?l))"
      unfolding step Suc.IH(4) [OF inv1 le1] len l1 V dr
      by (simp add: c1)
    have E: "notified ((removeOldest ^^ Suc n) c) =
           notified c @ (if onEvict c
                         then map (notice c) (rev (drop (length ?l - Suc n) ?l)) else [])"
      unfolding step Suc.IH(5) [OF inv1 le1] len l1 dr notice_cong [OF V]
      by (simp add: c1)
    note A B C D E }
  note all = this
  { case 1 then show ?case by (rule all(1)) next
    case 2 then show ?case by (rule all(2)) next
    case 3 then show ?case by (rule all(3)) next
    case 4 then show ?case by (rule all(4)) next
    case 5 then show ?case by (rule all(5)) }
qed

subsection \<open>The eviction loop\<close>

text \<open>
  On a store that satisfies the invariant the loop returns: an accumulator above the
  positive ceiling is not 0, so the list is not empty and each round removes an element.
  The loop removes the \<open>n\<close> back-most elements, where \<open>n\<close> is the first number of
  removals after which the accumulator is not above the ceiling.
\<close>

lemma evictLoop_stop: "\<not> maxCost c <s evictListCost c \<Longrightarrow> evictLoop c n = Some (c, n)"
  by (subst evictLoop.simps) simp

lemma evictLoop_go:
  "maxCost c <s evictListCost c \<Longrightarrow> evictLoop c n = evictLoop (removeOldest c) (Suc n)"
  by (subst evictLoop.simps) simp

lemma evictLoop_returns:
  assumes "invar c"
  shows "\<exists>n \<le> length (evictList c).
           evictLoop c j = Some ((removeOldest ^^ n) c, j + n)
           \<and> evictListCost ((removeOldest ^^ n) c) \<le>s maxCost c
           \<and> (\<forall>i < n. maxCost c <s evictListCost ((removeOldest ^^ i) c))"
  using assms
proof (induction "length (evictList c)" arbitrary: c j)
  case 0
  then have "evictListCost c = 0" "0 <s maxCost c" by (simp_all add: invar_def)
  then have le: "evictListCost c \<le>s maxCost c" by (simp add: word_sle_eq word_sless_alt)
  then have "\<not> maxCost c <s evictListCost c" by (simp add: word_sle_eq word_sless_alt)
  then have "evictLoop c j = Some (c, j)" by (subst evictLoop.simps) simp
  with le show ?case by (intro exI [of _ 0]) simp
next
  case (Suc m)
  show ?case
  proof (cases "maxCost c <s evictListCost c")
    case False
    then have "evictLoop c j = Some (c, j)" by (subst evictLoop.simps) simp
    moreover from False have "evictListCost c \<le>s maxCost c"
      by (simp add: word_sle_eq word_sless_alt)
    ultimately show ?thesis by (intro exI [of _ 0]) simp
  next
    case True
    let ?c1 = "removeOldest c"
    from Suc.hyps(2) have ne: "evictList c \<noteq> []" by auto
    have d: "distinct (evictList c)" using Suc.prems by (simp add: invar_def)
    have l1: "evictList ?c1 = butlast (evictList c)"
      by (simp add: removeOldest_nonempty ne remove1_last d)
    have inv1: "invar ?c1" using Suc.prems by (rule invar_removeOldest)
    have m: "m = length (evictList ?c1)" using Suc.hyps(2) by (simp add: l1)
    have mc: "maxCost ?c1 = maxCost c" by (simp add: removeOldest_nonempty ne)
    from Suc.hyps(1) [OF m inv1, of "Suc j"] obtain n where n:
      "n \<le> length (evictList ?c1)"
      "evictLoop ?c1 (Suc j) = Some ((removeOldest ^^ n) ?c1, Suc j + n)"
      "evictListCost ((removeOldest ^^ n) ?c1) \<le>s maxCost c"
      "\<forall>i < n. maxCost c <s evictListCost ((removeOldest ^^ i) ?c1)"
      unfolding mc by blast
    have sw: "(removeOldest ^^ i) ?c1 = (removeOldest ^^ Suc i) c" for i
      by (simp add: funpow_swap1)
    have 1: "Suc n \<le> length (evictList c)" using n(1) m Suc.hyps(2) by simp
    have 2: "evictLoop c j = Some ((removeOldest ^^ Suc n) c, j + Suc n)"
      using True n(2) by (subst evictLoop.simps) (simp add: sw)
    have 3: "evictListCost ((removeOldest ^^ Suc n) c) \<le>s maxCost c"
      using n(3) by (simp add: sw)
    have 4: "\<forall>i < Suc n. maxCost c <s evictListCost ((removeOldest ^^ i) c)"
    proof (intro allI impI)
      fix i assume "i < Suc n"
      show "maxCost c <s evictListCost ((removeOldest ^^ i) c)"
      proof (cases i)
        case 0 with True show ?thesis by simp
      next
        case (Suc i')
        with \<open>i < Suc n\<close> n(4) have "maxCost c <s evictListCost ((removeOldest ^^ i') ?c1)" by simp
        then show ?thesis unfolding sw Suc .
      qed
    qed
    from 1 2 3 4 show ?thesis by blast
  qed
qed

subsection \<open>Adding\<close>

lemma Add_new:
  "items c k = None \<Longrightarrow> \<not> maxCost c <s x \<Longrightarrow>
   Add c k v x = map_option (\<lambda>(c', n). (c', Inr n)) (evictLoop (pushed c k v x) 0)"
  by (simp add: Add_def pushed_def PushFront_def Let_def)

lemma Add_old:
  "items c k = Some e \<Longrightarrow>
   Add c k v x = Some ((touched c e)\<lparr>Value := (Value c)(e := (Value c e)\<lparr>val := v\<rparr>)\<rparr>, Inr 0)"
  by (simp add: Add_def touched_def Let_def)

lemma pushed_fields [simp]:
  "evictList (pushed c k v x) = fresh c # evictList c"
  "items (pushed c k v x) = (items c)(k \<mapsto> fresh c)"
  "evictListCost (pushed c k v x) = evictListCost c + x"
  "maxCost (pushed c k v x) = maxCost c"
  "Value (pushed c k v x) = (Value c)(fresh c := \<lparr>key = k, val = v, cost = x\<rparr>)"
  "fresh (pushed c k v x) = Suc (fresh c)"
  "onEvict (pushed c k v x) = onEvict c"
  "notified (pushed c k v x) = notified c"
  by (simp_all add: pushed_def)

lemma invar_pushed:
  assumes inv: "invar c" and new: "items c k = None"
  shows "invar (pushed c k v x)"
proof -
  let ?l = "evictList c" and ?V = "(Value c)(fresh c := \<lparr>key = k, val = v, cost = x\<rparr>)"
  have fr: "fresh c \<notin> set ?l" using inv by (rule invar_fresh)
  have V: "?V e = Value c e" if "e \<in> set ?l" for e using that fr by auto
  have old: "key (Value c e) \<noteq> k \<and> items c (key (Value c e)) = Some e"
    if "e \<in> set ?l" for e
    using that inv new by (auto simp: invar_def)
  have 1: "distinct (fresh c # ?l)" using inv fr by (simp add: invar_def)
  have 2: "\<forall>e \<in> set (fresh c # ?l). ((items c)(k \<mapsto> fresh c)) (key (?V e)) = Some e"
    using old fr by auto
  have img: "(\<lambda>e. key (?V e)) ` set ?l = (\<lambda>e. key (Value c e)) ` set ?l"
    using V by (intro image_cong) auto
  have 3: "dom ((items c)(k \<mapsto> fresh c)) = (\<lambda>e. key (?V e)) ` set (fresh c # ?l)"
    using inv unfolding set_simps image_insert img by (simp add: invar_def)
  have 4: "\<forall>e \<in> set (fresh c # ?l). e < Suc (fresh c)"
    using inv by (auto simp: invar_def less_Suc_eq)
  have same: "map (\<lambda>e. cost (?V e)) ?l = map (\<lambda>e. cost (Value c e)) ?l"
    using V by (intro map_cong) auto
  have 5: "evictListCost c + x = sum_list (map (\<lambda>e. cost (?V e)) (fresh c # ?l))"
    using inv unfolding list.map sum_list.Cons same by (simp add: invar_def)
  have 6: "0 <s maxCost c" using inv by (simp add: invar_def)
  show ?thesis
    unfolding invar_def pushed_fields using 1 2 3 4 5 6 by blast
qed

lemma invar_touched: "invar c \<Longrightarrow> invar (touched c e)"
  by (simp add: invar_def touched_def set_MoveToFront distinct_MoveToFront sum_list_MoveToFront)

lemma invar_revalue:
  assumes "invar c"
  shows "invar (c\<lparr>Value := (Value c)(e := (Value c e)\<lparr>val := v\<rparr>)\<rparr>)"
proof -
  have k: "key (((Value c)(e := (Value c e)\<lparr>val := v\<rparr>)) e') = key (Value c e')" for e'
    by simp
  have x: "cost (((Value c)(e := (Value c e)\<lparr>val := v\<rparr>)) e') = cost (Value c e')" for e'
    by simp
  show ?thesis using assms unfolding invar_def by (simp add: k x del: fun_upd_apply)
qed

lemma Add_new_returns:
  assumes inv: "invar c" and new: "items c k = None" and fit: "\<not> maxCost c <s x"
  shows "\<exists>n \<le> length (evictList c).
           Add c k v x = Some ((removeOldest ^^ n) (pushed c k v x), Inr n)
           \<and> evictListCost ((removeOldest ^^ n) (pushed c k v x)) \<le>s maxCost c
           \<and> (\<forall>i < n. maxCost c <s evictListCost ((removeOldest ^^ i) (pushed c k v x)))"
proof -
  let ?p = "pushed c k v x"
  have invp: "invar ?p" using inv new by (rule invar_pushed)
  have mp: "maxCost ?p = maxCost c" by simp
  have lp: "evictList ?p = fresh c # evictList c" by simp
  from evictLoop_returns [OF invp, of 0] obtain n where n:
    "n \<le> length (evictList ?p)" "evictLoop ?p 0 = Some ((removeOldest ^^ n) ?p, n)"
    "evictListCost ((removeOldest ^^ n) ?p) \<le>s maxCost c"
    "\<forall>i < n. maxCost c <s evictListCost ((removeOldest ^^ i) ?p)"
    unfolding mp by auto
  have "n \<le> length (evictList c)"
  proof (rule ccontr)
    assume "\<not> n \<le> length (evictList c)"
    with n(1) have "length (evictList c) < n" "length (evictList c) \<le> length (evictList ?p)"
      by (simp_all add: lp)
    from n(4) \<open>length (evictList c) < n\<close>
    have "maxCost c <s evictListCost ((removeOldest ^^ length (evictList c)) ?p)" by blast
    moreover have "drop (length (evictList ?p) - length (evictList c)) (evictList ?p) = evictList c"
      by simp
    ultimately
    have a: "maxCost c <s evictListCost ?p - sum_list (map (\<lambda>e. cost (Value ?p e)) (evictList c))"
      using funpow_removeOldest(4) [OF invp, of "length (evictList c)"] by simp
    have b: "map (\<lambda>e. cost (Value ?p e)) (evictList c) = map (\<lambda>e. cost (Value c e)) (evictList c)"
      using invar_fresh [OF inv] by (intro map_cong) auto
    have c: "evictListCost ?p = sum_list (map (\<lambda>e. cost (Value c e)) (evictList c)) + x"
      using inv by (simp add: invar_def)
    from a have "maxCost c <s x" unfolding b c by (simp only: add_diff_cancel_left')
    with fit show False by simp
  qed
  with n show ?thesis by (auto simp: Add_new [OF new fit])
qed

lemma keysOf_pushed:
  assumes "invar c" shows "keysOf (pushed c k v x) = keysOf c @ [k]"
proof -
  have "map (\<lambda>e. key (Value (pushed c k v x) e)) (rev (evictList c))
      = map (\<lambda>e. key (Value c e)) (rev (evictList c))"
    using invar_fresh [OF assms] by (intro map_cong) auto
  then show ?thesis by (simp add: keysOf_def)
qed

lemma Add_new_cases:
  assumes inv: "invar c" and new: "items c k = None" and r: "Add c k v x = Some (c', Inr n)"
  shows "\<not> maxCost c <s x" and "n \<le> length (evictList c)"
    and "c' = (removeOldest ^^ n) (pushed c k v x)"
proof -
  show fit: "\<not> maxCost c <s x" using new r by (auto simp: Add_def)
  from Add_new_returns [OF inv new fit, of v] r
  show "n \<le> length (evictList c)" "c' = (removeOldest ^^ n) (pushed c k v x)" by auto
qed

lemma addAll_no_eviction:
  assumes "invar c" and "distinct (map fst kvcs)" and "fst ` set kvcs \<inter> dom (items c) = {}"
    and "addAll c kvcs = Some (c', 0)"
  shows "invar c' \<and> keysOf c' = keysOf c @ map fst kvcs"
  using assms
proof (induction kvcs arbitrary: c)
  case Nil
  then show ?case by simp
next
  case (Cons a kvcs)
  obtain k v x where a: "a = (k, v, x)" by (cases a)
  from Cons.prems(3) have new: "items c k = None" by (auto simp: a)
  from Cons.prems(4) obtain c1 where
    add: "Add c k v x = Some (c1, Inr 0)" and rest: "addAll c1 kvcs = Some (c', 0)"
    by (auto simp: a split: option.splits sum.splits)
  from Add_new_cases(3) [OF Cons.prems(1) new add] have c1: "c1 = pushed c k v x" by simp
  have inv1: "invar c1" unfolding c1 using Cons.prems(1) new by (rule invar_pushed)
  have dis: "fst ` set kvcs \<inter> dom (items c1) = {}"
    using Cons.prems(2,3) by (auto simp: a c1)
  from Cons.IH [OF inv1 _ dis rest] Cons.prems(2)
  have "invar c' \<and> keysOf c' = keysOf c1 @ map fst kvcs" by simp
  then show ?case by (simp add: c1 keysOf_pushed [OF Cons.prems(1)] a)
qed

lemma Add_never_diverges: "invar c \<Longrightarrow> \<exists>c' r. Add c k v x = Some (c', r)"
proof (cases "items c k")
  case (Some e)
  then show ?thesis by (simp add: Add_old)
next
  case None
  assume inv: "invar c"
  show ?thesis
  proof (cases "maxCost c <s x")
    case True with None show ?thesis by (simp add: Add_def)
  next
    case False
    from Add_new_returns [OF inv None False, of v] show ?thesis by blast
  qed
qed

lemma Resize_never_diverges: "invar c \<Longrightarrow> \<exists>c' r. Resize c m = Some (c', r)"
proof (cases "m \<le>s 0")
  case True then show ?thesis by (simp add: Resize_def)
next
  case False
  assume "invar c"
  with False have "invar (c\<lparr>maxCost := m\<rparr>)" by (simp add: invar_def word_sle_eq word_sless_alt)
  from evictLoop_returns [OF this, of 0] False show ?thesis by (auto simp: Resize_def)
qed

lemma Resize_raise:
  assumes "0 <s maxCost c" and "maxCost c \<le>s m" and "Cost c \<le>s maxCost c"
  shows "Resize c m = Some (c\<lparr>maxCost := m\<rparr>, Inr 0)"
proof -
  from assms have "\<not> m \<le>s 0" "\<not> m <s evictListCost c"
    by (auto simp: word_sle_eq word_sless_alt Cost_def)
  then show ?thesis by (simp add: Resize_def evictLoop_stop)
qed

subsection \<open>Purging\<close>

lemma visited_simps [simp]:
  "visited c [] = []"
  "visited c (k # ks) = (case items c k of None \<Rightarrow> [] | Some e \<Rightarrow> [e]) @ visited c ks"
  by (simp_all add: visited_def)

lemma visited_cong:
  "(\<And>k. k \<in> set ks \<Longrightarrow> items c k = items d k) \<Longrightarrow> visited c ks = visited d ks"
  by (induction ks) simp_all

lemma visited_dom: "set ks \<subseteq> dom (items c) \<Longrightarrow> visited c ks = map (\<lambda>k. the (items c k)) ks"
  by (induction ks) auto

lemma purge_visit_frame [simp]:
  "evictList (purge_visit k c) = evictList c"
  "evictListCost (purge_visit k c) = evictListCost c"
  "maxCost (purge_visit k c) = maxCost c"
  "Value (purge_visit k c) = Value c"
  "fresh (purge_visit k c) = fresh c"
  "onEvict (purge_visit k c) = onEvict c"
  "items (purge_visit k c) = (items c)(k := None)"
  by (auto simp: purge_visit_def callOnEvict_def Let_def split: option.splits)

lemma purge_visit_notified:
  "notified (purge_visit k c) =
     notified c @ (if onEvict c then map (notice c) (visited c [k]) else [])"
  by (simp add: purge_visit_def callOnEvict_def Let_def notice_def split: option.splits)

lemma fold_purge_visit:
  assumes "distinct ks"
  shows "evictList (fold purge_visit ks c) = evictList c"
    and "evictListCost (fold purge_visit ks c) = evictListCost c"
    and "maxCost (fold purge_visit ks c) = maxCost c"
    and "Value (fold purge_visit ks c) = Value c"
    and "fresh (fold purge_visit ks c) = fresh c"
    and "onEvict (fold purge_visit ks c) = onEvict c"
    and "items (fold purge_visit ks c) = (\<lambda>k. if k \<in> set ks then None else items c k)"
    and "notified (fold purge_visit ks c) =
           notified c @ (if onEvict c then map (notice c) (visited c ks) else [])"
  using assms
proof (induction ks arbitrary: c)
  case Nil
  { case 1 show ?case by simp next
    case 2 show ?case by simp next
    case 3 show ?case by simp next
    case 4 show ?case by simp next
    case 5 show ?case by simp next
    case 6 show ?case by simp next
    case 7 show ?case by simp next
    case 8 show ?case by simp }
next
  case (Cons k ks)
  { fix c :: "('a, 'b) LRU" assume d: "distinct (k # ks)"
    then have dk: "distinct ks" and nk: "k \<notin> set ks" by simp_all
    let ?c1 = "purge_visit k c"
    have V: "notice ?c1 = notice c" by (rule notice_cong) simp
    have mf: "visited ?c1 ks = visited c ks"
      using nk by (intro visited_cong) auto
    have split: "visited c (k # ks)
               = visited c [k] @ visited c ks"
      by simp
    have "items (fold purge_visit (k # ks) c) =
            (\<lambda>k'. if k' \<in> set (k # ks) then None else items c k')"
      by (simp add: Cons.IH(7) [OF dk] fun_eq_iff)
    moreover have "notified (fold purge_visit (k # ks) c) =
           notified c @ (if onEvict c then map (notice c) (visited c (k # ks)) else [])"
      unfolding split by (simp add: Cons.IH(8) [OF dk] V mf purge_visit_notified del: visited_simps)
    ultimately have "items (fold purge_visit (k # ks) c) =
            (\<lambda>k'. if k' \<in> set (k # ks) then None else items c k')"
      "notified (fold purge_visit (k # ks) c) =
           notified c @ (if onEvict c then map (notice c) (visited c (k # ks)) else [])"
      by blast+ }
  note hard = this
  { case 1 then show ?case by (simp add: Cons.IH(1)) next
    case 2 then show ?case by (simp add: Cons.IH(2)) next
    case 3 then show ?case by (simp add: Cons.IH(3)) next
    case 4 then show ?case by (simp add: Cons.IH(4)) next
    case 5 then show ?case by (simp add: Cons.IH(5)) next
    case 6 then show ?case by (simp add: Cons.IH(6)) next
    case 7 then show ?case by (rule hard(1)) next
    case 8 then show ?case by (rule hard(2)) }
qed

lemma visited_elements:
  assumes inv: "invar c" and d: "distinct ks" and s: "set ks = dom (items c)"
  shows "mset (visited c ks) = mset (evictList c)"
proof -
  let ?g = "\<lambda>k. the (items c k)"
  have mf: "visited c ks = map ?g ks"
    using s by (intro visited_dom) simp
  have inj: "inj_on ?g (set ks)"
  proof (rule inj_onI)
    fix a b assume "a \<in> set ks" "b \<in> set ks" "?g a = ?g b"
    then obtain e where "items c a = Some e" "items c b = Some e" using s by auto
    with invar_lookup(2) [OF inv] show "a = b" by blast
  qed
  have img: "?g ` set ks = set (evictList c)"
  proof (intro set_eqI iffI)
    fix e assume "e \<in> ?g ` set ks"
    then obtain k where "items c k = Some e" using s by auto
    with invar_lookup(1) [OF inv] show "e \<in> set (evictList c)" by blast
  next
    fix e assume e: "e \<in> set (evictList c)"
    with inv have i: "items c (key (Value c e)) = Some e" by (simp add: invar_def)
    then have "key (Value c e) \<in> set ks" using s by auto
    with i show "e \<in> ?g ` set ks" by force
  qed
  have "distinct (map ?g ks)" using d inj by (simp add: distinct_map)
  moreover have "distinct (evictList c)" using inv by (simp add: invar_def)
  moreover have "set (map ?g ks) = set (evictList c)" using img by simp
  ultimately have "mset (map ?g ks) = mset (evictList c)"
    by (rule set_eq_iff_mset_eq_distinct [THEN iffD1])
  then show ?thesis by (simp only: mf)
qed

lemma Purge_fields:
  assumes "distinct order"
  shows "evictList (Purge c order) = []" and "evictListCost (Purge c order) = 0"
    and "maxCost (Purge c order) = maxCost c"
    and "items (Purge c order) = (\<lambda>k. if k \<in> set order then None else items c k)"
    and "notified (Purge c order) =
           notified c @ (if onEvict c then map (notice c) (visited c order) else [])"
  using fold_purge_visit [OF assms, of c] by (simp_all add: Purge_def Let_def)

lemma invar_Purge:
  assumes "invar c" and "distinct order" and "set order = dom (items c)"
  shows "invar (Purge c order)"
proof -
  note F = Purge_fields [OF assms(2), of c]
  have "items (Purge c order) = Map.empty" using assms(3) by (auto simp: F(4) fun_eq_iff)
  with assms(1) show ?thesis by (simp add: invar_def F(1,2,3))
qed

subsection \<open>Every store that calls can reach satisfies the invariant\<close>

text \<open>
  Whatever the costs, negative or wrapping, every public call that returns normally keeps
  the invariant, and on a store that satisfies it \<^verbatim>\<open>Add\<close> and \<^verbatim>\<open>Resize\<close> always return
  or panic.
\<close>

lemma invar_step:
  assumes inv: "invar c" and st: "step c x = Some c'"
  shows "invar c'"
proof (cases x)
  case (OpAdd k v cost')
  show ?thesis
  proof (cases "items c k")
    case (Some e)
    let ?t = "touched c e"
    from st have c': "c' = ?t\<lparr>Value := (Value c)(e := (Value c e)\<lparr>val := v\<rparr>)\<rparr>"
      by (simp add: OpAdd Add_old [OF Some])
    have "invar (?t\<lparr>Value := (Value ?t)(e := (Value ?t e)\<lparr>val := v\<rparr>)\<rparr>)"
      using invar_touched [OF inv] by (rule invar_revalue)
    then show ?thesis by (simp add: c' touched_def)
  next
    case None
    from st obtain n where add: "Add c k v cost' = Some (c', Inr n)"
      by (auto simp: OpAdd split: option.splits sum.splits)
    note A = Add_new_cases [OF inv None add]
    have invp: "invar (pushed c k v cost')" using inv None by (rule invar_pushed)
    have np: "n \<le> length (evictList (pushed c k v cost'))" using A(2) by simp
    show ?thesis unfolding A(3) using invp np by (rule funpow_removeOldest(1))
  qed
next
  case (OpGet k)
  with st inv invar_touched [OF inv] show ?thesis
    by (auto simp: Get_def touched_def split: option.splits)
next
  case (OpRemove k)
  show ?thesis
  proof (cases "items c k")
    case None with st inv OpRemove show ?thesis by (simp add: Remove_def)
  next
    case (Some e)
    with st OpRemove have "c' = removeElement c e" by (simp add: Remove_def)
    with invar_removeElement [OF inv invar_lookup(1) [OF inv Some]] show ?thesis by simp
  qed
next
  case OpRemoveOldest
  show ?thesis
  proof (cases "evictList c = []")
    case True with st inv OpRemoveOldest show ?thesis by (simp add: RemoveOldest_def Back_def)
  next
    case False
    with st OpRemoveOldest have "c' = removeElement c (last (evictList c))"
      by (simp add: RemoveOldest_def Back_def Let_def)
    with invar_removeElement [OF inv, of "last (evictList c)"] False show ?thesis by simp
  qed
next
  case (OpResize m)
  from st have pos: "\<not> m \<le>s 0" by (auto simp: OpResize Resize_def split: if_splits)
  let ?d = "c\<lparr>maxCost := m\<rparr>"
  from pos inv have invd: "invar ?d" by (simp add: invar_def word_sle_eq word_sless_alt)
  from evictLoop_returns [OF invd, of 0] obtain n where n:
    "n \<le> length (evictList ?d)" "evictLoop ?d 0 = Some ((removeOldest ^^ n) ?d, n)"
    by auto
  from st pos n(2) have c': "c' = (removeOldest ^^ n) ?d" by (simp add: OpResize Resize_def)
  show ?thesis unfolding c' using invd n(1) by (rule funpow_removeOldest(1))
next
  case (OpPurge order)
  from st have o: "distinct order" "set order = dom (items c)" and c': "c' = Purge c order"
    by (auto simp: OpPurge split: if_splits)
  show ?thesis unfolding c' using inv o by (rule invar_Purge)
qed (use st inv in \<open>auto split: sum.splits\<close>)

lemma invar_run: "invar c \<Longrightarrow> run c ops = Some c' \<Longrightarrow> invar c'"
proof (induction ops arbitrary: c)
  case Nil then show ?case by simp
next
  case (Cons x ops)
  from Cons.prems(2) obtain c1 where s: "step c x = Some c1" and r: "run c1 ops = Some c'"
    by (auto split: option.splits)
  from Cons.IH [OF invar_step [OF Cons.prems(1) s] r] show ?case .
qed

subsection \<open>The accumulator without wrap-around\<close>

text \<open>
  While no cost is negative and no insertion wraps the sum, the accumulator is the sum of
  the costs as integers, so removing an entry can only lower it.
\<close>

lemma exact_removeElement:
  assumes ex: "exact c" and mem: "e \<in> set (evictList c)"
  shows "exact (removeElement c e)"
    and "sint (evictListCost (removeElement c e)) \<le> sint (evictListCost c)"
proof -
  let ?f = "\<lambda>e. sint (cost (Value c e))" and ?l = "evictList c"
  have nn: "\<forall>e' \<in> set (remove1 e ?l). 0 \<le> ?f e'"
    using ex set_remove1_subset [of e ?l] by (auto simp: exact_def)
  then have rest: "0 \<le> sum_list (map ?f (remove1 e ?l))" by (intro sum_list_nonneg) auto
  have S: "sint (evictListCost c) = ?f e + sum_list (map ?f (remove1 e ?l))"
    using ex sum_list_map_remove1 [OF mem, of ?f] by (simp add: exact_def)
  have fe: "0 \<le> ?f e" using ex mem by (simp add: exact_def)
  have "sint (evictListCost c - cost (Value c e)) = sint (evictListCost c) - ?f e"
    using S rest fe sint64_range [of "evictListCost c"] by (intro sint_sub_exact) linarith+
  with S have eq: "sint (evictListCost (removeElement c e)) = sum_list (map ?f (remove1 e ?l))"
    by simp
  with nn show "exact (removeElement c e)" by (simp add: exact_def)
  from eq S fe show "sint (evictListCost (removeElement c e)) \<le> sint (evictListCost c)" by simp
qed

lemma exact_removeOldest:
  assumes "exact c"
  shows "exact (removeOldest c)"
    and "sint (evictListCost (removeOldest c)) \<le> sint (evictListCost c)"
  using assms exact_removeElement [of c "last (evictList c)"]
  by (cases "evictList c = []"; simp add: removeOldest_empty removeOldest_nonempty)+

lemma exact_funpow: "exact c \<Longrightarrow> exact ((removeOldest ^^ n) c)"
  by (induction n) (simp_all add: exact_removeOldest)

lemma exact_touched: "exact c \<Longrightarrow> exact (touched c e)"
  by (simp add: exact_def touched_def set_MoveToFront sum_list_MoveToFront)

lemma exact_revalue:
  assumes "exact c"
  shows "exact (c\<lparr>Value := (Value c)(e := (Value c e)\<lparr>val := v\<rparr>)\<rparr>)"
proof -
  have x: "cost (((Value c)(e := (Value c e)\<lparr>val := v\<rparr>)) e') = cost (Value c e')" for e'
    by simp
  show ?thesis using assms unfolding exact_def by (simp add: x del: fun_upd_apply)
qed

lemma exact_pushed:
  assumes inv: "invar c" and ex: "exact c" and x: "0 \<le>s x"
    and fit: "sint (evictListCost c) + sint x \<le> 2 ^ 63 - 1"
  shows "exact (pushed c k v x)"
proof -
  let ?l = "evictList c" and ?V = "(Value c)(fresh c := \<lparr>key = k, val = v, cost = x\<rparr>)"
  have fr: "fresh c \<notin> set ?l" using inv by (rule invar_fresh)
  have V: "?V e = Value c e" if "e \<in> set ?l" for e using that fr by auto
  have same: "map (\<lambda>e. sint (cost (?V e))) ?l = map (\<lambda>e. sint (cost (Value c e))) ?l"
    using V by (intro map_cong) auto
  have x0: "0 \<le> sint x" using x by (simp add: word_sle_eq)
  have "0 \<le> sum_list (map (\<lambda>e. sint (cost (Value c e))) ?l)"
    using ex by (intro sum_list_nonneg) (auto simp: exact_def)
  then have "0 \<le> sint (evictListCost c)" using ex by (simp add: exact_def)
  with x0 fit have "sint (evictListCost c + x) = sint (evictListCost c) + sint x"
    by (intro sint_add_exact) linarith+
  then have 2: "sint (evictListCost c + x) = sum_list (map (\<lambda>e. sint (cost (?V e))) (fresh c # ?l))"
    using ex unfolding list.map sum_list.Cons same by (simp add: exact_def)
  have 1: "\<forall>e \<in> set (fresh c # ?l). 0 \<le> sint (cost (?V e))"
    using ex x0 V by (auto simp: exact_def)
  show ?thesis unfolding exact_def pushed_fields using 1 2 by blast
qed

lemma exact_step:
  assumes inv: "invar c" and ex: "exact c" and le: "evictListCost c \<le>s maxCost c"
    and nn: "nonneg_cost x" and ft: "fits c x" and st: "step c x = Some c'"
  shows "exact c' \<and> evictListCost c' \<le>s maxCost c'"
proof -
  have rem: "exact (removeElement c e) \<and> evictListCost (removeElement c e) \<le>s maxCost c"
    if "e \<in> set (evictList c)" for e
    using exact_removeElement [OF ex that] le by (simp add: word_sle_eq)
  show ?thesis
  proof (cases x)
    case (OpAdd k v cost')
    show ?thesis
    proof (cases "items c k")
      case (Some e)
      let ?t = "touched c e"
      from st have c': "c' = ?t\<lparr>Value := (Value c)(e := (Value c e)\<lparr>val := v\<rparr>)\<rparr>"
        by (simp add: OpAdd Add_old [OF Some])
      have "exact (?t\<lparr>Value := (Value ?t)(e := (Value ?t e)\<lparr>val := v\<rparr>)\<rparr>)"
        using exact_touched [OF ex] by (rule exact_revalue)
      with le show ?thesis by (simp add: c' touched_def)
    next
      case None
      from st obtain n where add: "Add c k v cost' = Some (c', Inr n)"
        by (auto simp: OpAdd split: option.splits sum.splits)
      note A = Add_new_cases [OF inv None add]
      from Add_new_returns [OF inv None A(1), of v] add
      have le': "evictListCost c' \<le>s maxCost c" by auto
      have "exact (pushed c k v cost')"
        using inv ex nn ft None by (intro exact_pushed) (simp_all add: OpAdd)
      then have "exact c'" unfolding A(3) by (rule exact_funpow)
      moreover have "maxCost c' = maxCost c" unfolding A(3) by simp
      ultimately show ?thesis using le' by simp
    qed
  next
    case (OpGet k)
    with st ex le exact_touched [OF ex] show ?thesis
      by (auto simp: Get_def touched_def split: option.splits)
  next
    case (OpRemove k)
    show ?thesis
    proof (cases "items c k")
      case None with st ex le OpRemove show ?thesis by (simp add: Remove_def)
    next
      case (Some e)
      with st OpRemove have "c' = removeElement c e" by (simp add: Remove_def)
      with rem invar_lookup(1) [OF inv Some] show ?thesis by simp
    qed
  next
    case OpRemoveOldest
    show ?thesis
    proof (cases "evictList c = []")
      case True with st ex le OpRemoveOldest show ?thesis by (simp add: RemoveOldest_def Back_def)
    next
      case False
      with st OpRemoveOldest have "c' = removeElement c (last (evictList c))"
        by (simp add: RemoveOldest_def Back_def Let_def)
      with rem False show ?thesis by simp
    qed
  next
    case (OpResize m)
    from st have pos: "\<not> m \<le>s 0" by (auto simp: OpResize Resize_def split: if_splits)
    let ?d = "c\<lparr>maxCost := m\<rparr>"
    from pos inv have invd: "invar ?d" by (simp add: invar_def word_sle_eq word_sless_alt)
    have exd: "exact ?d" using ex by (simp add: exact_def)
    from evictLoop_returns [OF invd, of 0] obtain n where n:
      "evictLoop ?d 0 = Some ((removeOldest ^^ n) ?d, n)"
      "evictListCost ((removeOldest ^^ n) ?d) \<le>s m"
      by auto
    from st pos n(1) have c': "c' = (removeOldest ^^ n) ?d" by (simp add: OpResize Resize_def)
    show ?thesis unfolding c' using exact_funpow [OF exd, of n] n(2) by simp
  next
    case (OpPurge order)
    from st have o: "distinct order" and c': "c' = Purge c order"
      by (auto simp: OpPurge split: if_splits)
    note F = Purge_fields [OF o, of c]
    have "0 <s maxCost c" using inv by (simp add: invar_def)
    then show ?thesis by (simp add: exact_def c' F(1,2,3) word_sle_eq word_sless_alt)
  qed (use st ex le in \<open>auto split: sum.splits\<close>)
qed

lemma good_step:
  assumes g: "good c" and nn: "nonneg_cost x" and ft: "fits c x" and st: "step c x = Some c'"
  shows "good c'"
  using g invar_step [OF _ st] exact_step [OF _ _ _ nn ft st] by (simp add: good_def)

lemma good_run:
  assumes "good c" "nonneg_costs ops" "no_overflow c ops" "run c ops = Some c'"
  shows "good c'"
  using assms
proof (induction ops arbitrary: c)
  case Nil then show ?case by simp
next
  case (Cons x ops)
  from Cons.prems(4) obtain c1 where s: "step c x = Some c1" and r: "run c1 ops = Some c'"
    by (auto split: option.splits)
  from Cons.prems(2,3) s have "nonneg_cost x" "fits c x" "nonneg_costs ops" "no_overflow c1 ops"
    by (simp_all add: nonneg_costs_def)
  with good_step [OF Cons.prems(1) _ _ s] Cons.IH [of c1] r show ?case by blast
qed

lemma no_overflow_take: "no_overflow c ops \<Longrightarrow> no_overflow c (take n ops)"
proof (induction ops arbitrary: c n)
  case Nil then show ?case by simp
next
  case (Cons x ops)
  then show ?case by (cases n) (auto split: option.splits)
qed

lemma nonneg_costs_take: "nonneg_costs ops \<Longrightarrow> nonneg_costs (take n ops)"
  by (auto simp: nonneg_costs_def list_all_iff dest: in_set_takeD)

lemma good_NewLRU: "NewLRU mem m cb = Inr c \<Longrightarrow> good c"
  using invar_NewLRU [of mem m cb c]
  by (auto simp: good_def exact_def NewLRU_def word_sle_eq word_sless_alt split: if_splits)

lemma Resize_raise_reachable:
  assumes "NewLRU mem m0 cb = Inr c0" and "nonneg_costs ops" and "no_overflow c0 ops"
    and "run c0 ops = Some c" and "maxCost c \<le>s m"
  shows "Resize c m = Some (c\<lparr>maxCost := m\<rparr>, Inr 0)"
proof -
  from good_run [OF good_NewLRU [OF assms(1)] assms(2,3,4)]
  have "invar c" "evictListCost c \<le>s maxCost c" by (simp_all add: good_def)
  then have "0 <s maxCost c" "Cost c \<le>s maxCost c" by (simp_all add: invar_def Cost_def)
  with assms(5) show ?thesis by (intro Resize_raise)
qed

subsection \<open>Stores of ceiling 128 with entries of cost 2\<close>

lemma filled_cost:
  assumes "filled c j" shows "evictListCost c = of_nat (length (evictList c)) * 2"
proof -
  have "map (\<lambda>e. cost (Value c e)) (evictList c) = map (\<lambda>e. 2) (evictList c)"
    using assms by (intro map_cong) (auto simp: filled_def)
  with assms show ?thesis by (simp add: filled_def invar_def sum_list_triv)
qed

lemma Add_cost2:
  assumes f: "filled c j" and new: "items c k = None"
  shows "\<exists>c'. Add c k v 2 = Some (c', Inr (if j < 64 then 0 else 1))
              \<and> filled c' (Suc j) \<and> dom (items c') \<subseteq> insert k (dom (items c))"
proof -
  let ?p = "pushed c k v 2" and ?l = "evictList c"
  from f have inv: "invar c" and mc: "maxCost c = 128" and len: "length ?l = min j 64"
    by (simp_all add: filled_def)
  have fit: "\<not> maxCost c <s 2" by (simp add: mc word_sless_alt)
  have invp: "invar ?p" using inv new by (rule invar_pushed)
  have fr: "fresh c \<notin> set ?l" using inv by (rule invar_fresh)
  have costs: "\<forall>e \<in> set (evictList ?p). cost (Value ?p e) = 2"
    using f fr by (auto simp: filled_def)
  have cp: "evictListCost ?p = of_nat (Suc (length ?l)) * 2"
    using filled_cost [OF f] by simp
  have mp: "maxCost ?p = 128" by (simp add: mc)
  have add: "Add c k v 2 = map_option (\<lambda>(c', n). (c', Inr n)) (evictLoop ?p 0)"
    using new fit by (rule Add_new)
  show ?thesis
  proof (cases "j < 64")
    case True
    with len have "\<not> 128 <s (of_nat (Suc (length ?l)) * 2 :: int64)"
      by (subst twice_over_128) simp_all
    then have "\<not> maxCost ?p <s evictListCost ?p" unfolding cp mp .
    then have "evictLoop ?p 0 = Some (?p, 0)" by (rule evictLoop_stop)
    moreover have "filled ?p (Suc j)"
      unfolding filled_def using invp costs True len by (simp add: mc)
    ultimately show ?thesis using True by (auto simp: add)
  next
    case False
    let ?q = "removeOldest ?p"
    from False len have l64: "length ?l = 64" by simp
    then have "128 <s (of_nat (Suc (length ?l)) * 2 :: int64)"
      by (subst twice_over_128) simp_all
    then have "maxCost ?p <s evictListCost ?p" unfolding cp mp .
    then have go: "evictLoop ?p 0 = evictLoop ?q (Suc 0)" by (rule evictLoop_go)
    have ne: "evictList ?p \<noteq> []" by simp
    have q: "?q = removeElement ?p (last (evictList ?p))" using ne by (rule removeOldest_nonempty)
    have lastp: "last (evictList ?p) \<in> set (evictList ?p)" using ne by (rule last_in_set)
    have dp: "distinct (evictList ?p)" using invp by (simp add: invar_def)
    have lq: "evictList ?q = butlast (evictList ?p)"
      unfolding q using dp ne by (simp add: remove1_last del: pushed_fields)
    have cq: "evictListCost ?q = of_nat (length ?l) * 2"
      unfolding q using costs lastp cp by (simp del: pushed_fields(1,5) add: algebra_simps) 
    have mq: "maxCost ?q = 128" by (simp add: q mc)
    have "\<not> 128 <s (of_nat (length ?l) * 2 :: int64)"
      using l64 by (subst twice_over_128) simp_all
    then have "\<not> maxCost ?q <s evictListCost ?q" unfolding cq mq .
    then have "evictLoop ?q (Suc 0) = Some (?q, Suc 0)" by (rule evictLoop_stop)
    with go have r: "evictLoop ?p 0 = Some (?q, 1)" by simp
    have invq: "invar ?q" using invp by (rule invar_removeOldest)
    have sub: "set (evictList ?q) \<subseteq> set (evictList ?p)"
      unfolding lq by (auto dest: in_set_butlastD)
    have Vq: "Value ?q = Value ?p" by (simp add: q)
    have costq: "\<forall>e \<in> set (evictList ?q). cost (Value ?q e) = 2"
      unfolding Vq using costs sub by blast
    have "length (butlast (evictList ?p)) = length ?l" by simp
    then have lenq: "length (evictList ?q) = min (Suc j) 64"
      unfolding lq using False l64 by (simp del: pushed_fields length_butlast)
    have "filled ?q (Suc j)"
      unfolding filled_def using invq costq mq lenq by blast
    moreover have "dom (items ?q) \<subseteq> insert k (dom (items c))" by (auto simp: q)
    ultimately show ?thesis using False by (auto simp: add r)
  qed
qed

lemma addAll_cost2:
  assumes "filled c j" and "distinct (map fst kvs)" and "fst ` set kvs \<inter> dom (items c) = {}"
  shows "\<exists>c'. addAll c (map (\<lambda>(k, v). (k, v, 2)) kvs)
                 = Some (c', (j + length kvs - 64) - (j - 64))
              \<and> filled c' (j + length kvs)"
  using assms
proof (induction kvs arbitrary: c j)
  case Nil
  then show ?case by simp
next
  case (Cons a kvs)
  obtain k v where a: "a = (k, v)" by (cases a)
  from Cons.prems(3) have new: "items c k = None" by (auto simp: a)
  from Add_cost2 [OF Cons.prems(1) new, of v] obtain c1 where c1:
    "Add c k v 2 = Some (c1, Inr (if j < 64 then 0 else 1))" "filled c1 (Suc j)"
    "dom (items c1) \<subseteq> insert k (dom (items c))"
    by blast
  have dis: "fst ` set kvs \<inter> dom (items c1) = {}"
    using Cons.prems(2,3) c1(3) by (auto simp: a)
  from Cons.IH [OF c1(2) _ dis] Cons.prems(2) obtain c' where c':
    "addAll c1 (map (\<lambda>(k, v). (k, v, 2)) kvs) = Some (c', (Suc j + length kvs - 64) - (Suc j - 64))"
    "filled c' (Suc j + length kvs)"
    by auto
  have ar: "(if j < 64 then 0 else 1) + ((Suc j + length kvs - 64) - (Suc j - 64))
          = (j + length (a # kvs) - 64) - (j - 64)"
    by (simp split: if_splits)
  show ?case
    using c1(1) c' ar by (intro exI [of _ c']) (simp add: a)
qed

subsection \<open>Unfolding the operations on concrete stores\<close>

lemmas eval_defs = Add_def Get_def Remove_def Resize_def removeOldest_def removeElement_def
  callOnEvict_def Back_def PushFront_def MoveToFront_def list_Remove_def Let_def
  word_sless_alt word_sle_eq Cost_def NewLRU_def

section \<open>Claims\<close>

subsection \<open>Evaluation of concrete calls\<close>

lemma invar_store12: "invar store12"
  by (simp add: invar_def store12_def mem0_def word_sless_alt)

lemma New_store0: "NewLRU mem0 10 True = Inr store0"
  by (simp add: NewLRU_def store0_def word_sle_eq)

lemma New_store5: "NewLRU mem0 5 True = Inr store5"
  by (simp add: NewLRU_def store5_def word_sle_eq)

lemma New_store_max: "NewLRU mem0 (2 ^ 63 - 1) False = Inr store_max"
  by (simp add: NewLRU_def store_max_def word_sle_eq)

lemma run_overflow_ops:
  "map_option Cost (run store_max overflow_ops) = Some (2 ^ 63 - 1)"
  "map_option maxCost (run store_max overflow_ops) = Some 1"
  by (simp_all add: store_max_def overflow_ops_def eval_defs evictLoop_stop evictLoop_go)

lemma run_overflow_store: "run store_max overflow_ops = Some store_over"
proof -
  have i: "([1 \<mapsto> 0, 2 \<mapsto> 1] :: nat \<rightharpoonup> nat)(1 := None) = [2 \<mapsto> 1]"
    by (auto simp: fun_eq_iff)
  show ?thesis
    by (simp add: store_max_def overflow_ops_def store_over_def eval_defs evictLoop_stop
        evictLoop_go i)
qed

lemma Resize_store_over:
  "map_option snd (Resize store_over 2) = Some (Inr 1)"
  "map_option (Len \<circ> fst) (Resize store_over 2) = Some 0"
  "Len store_over = 1" "maxCost store_over <s 2"
  by (simp_all add: store_over_def eval_defs evictLoop_stop evictLoop_go Len_def)

lemma run_small_ops:
  "map_option Cost (run store5 small_ops) = Some 0"
  "map_option maxCost (run store5 small_ops) = Some 5"
  "no_overflow store5 small_ops"
  by (simp_all add: store5_def small_ops_def eval_defs RemoveOldest_def evictLoop_stop evictLoop_go)

subsection \<open>C1: the capacity invariant\<close>

text \<open>
  C1, as amended. Take a store made by \<^verbatim>\<open>NewLRU\<close> and any sequence of public calls in
  which every \<^verbatim>\<open>Add\<close> supplies a non-negative cost and no insertion of a new key takes
  \<^verbatim>\<open>Cost() + cost\<close> beyond the largest \<^verbatim>\<open>int64\<close>. Then after each call of the sequence,
  when the calls so far have returned normally, \<^verbatim>\<open>Cost() <= maxCost\<close>.
\<close>

theorem capacity_invariant:
  assumes "NewLRU mem m cb = Inr c0" and "nonneg_costs ops" and "no_overflow c0 ops"
    and "run c0 (take n ops) = Some c"
  shows "Cost c \<le>s maxCost c"
  using good_run [OF good_NewLRU [OF assms(1)] nonneg_costs_take [OF assms(2)]
      no_overflow_take [OF assms(3)] assms(4)]
  by (simp add: good_def Cost_def)

theorem capacity_invariant_witness:
  "NewLRU mem0 5 True = Inr store5 \<and> nonneg_costs small_ops \<and> no_overflow store5 small_ops
   \<and> (\<exists>c. run store5 (take 3 small_ops) = Some c \<and> Cost c \<le>s maxCost c)"
proof -
  have nn: "nonneg_costs small_ops"
    by (simp add: nonneg_costs_def small_ops_def word_sle_eq)
  have t: "take 3 small_ops = small_ops" by (simp add: small_ops_def)
  from run_small_ops(1) obtain c where c: "run store5 (take 3 small_ops) = Some c"
    unfolding t by auto
  from capacity_invariant [OF New_store5 nn run_small_ops(3) c] c
  have "\<exists>c. run store5 (take 3 small_ops) = Some c \<and> Cost c \<le>s maxCost c" by blast
  with New_store5 nn run_small_ops(3) show ?thesis by blast
qed

text \<open>
  C1 as stated, without the condition on the sum, fails. With ceiling \<open>2^63 - 1\<close>, two
  insertions of cost \<open>2^63 - 1\<close> wrap the accumulator to \<open>-2\<close>, so neither they nor
  \<^verbatim>\<open>Resize(1)\<close> evict; removing the first key then leaves the accumulator at
  \<open>2^63 - 1\<close>, above the ceiling 1. All four calls return normally and all costs are
  non-negative.
\<close>

theorem capacity_invariant_overflow_counterexample:
  "NewLRU mem0 (2 ^ 63 - 1) False = Inr store_max \<and> nonneg_costs overflow_ops
   \<and> map_option Cost (run store_max overflow_ops) = Some (2 ^ 63 - 1)
   \<and> map_option maxCost (run store_max overflow_ops) = Some 1
   \<and> \<not> ((2 ^ 63 - 1 :: int64) \<le>s 1)"
  using New_store_max run_overflow_ops
  by (simp add: nonneg_costs_def overflow_ops_def word_sle_eq)

subsection \<open>C2: adding a key that is resident\<close>

text \<open>
  C2. On every store that satisfies the invariant of the representation, \<^verbatim>\<open>Add\<close> of a
  resident key returns 0 whatever cost is supplied. It moves the entry
  to the front of the list (the key becomes the last of \<^verbatim>\<open>Keys()\<close>, the other keys keep
  their order), replaces its value, and leaves its cost and key, the costs of all entries,
  \<^verbatim>\<open>Cost()\<close>, \<^verbatim>\<open>Len()\<close>, the index and the trace of the notifier unchanged: nothing is
  evicted.
\<close>

theorem Add_existing_key:
  assumes inv: "invar c" and res: "items c k = Some e"
  shows "\<exists>c'. Add c k v cost' = Some (c', Inr 0)
           \<and> evictList c' = e # remove1 e (evictList c)
           \<and> keysOf c' = filter (\<lambda>k'. k' \<noteq> k) (keysOf c) @ [k]
           \<and> Peek c' k = (Some v, True)
           \<and> (\<forall>k'. k' \<noteq> k \<longrightarrow> Peek c' k' = Peek c k')
           \<and> (\<forall>e'. cost (Value c' e') = cost (Value c e') \<and> key (Value c' e') = key (Value c e'))
           \<and> Cost c' = Cost c \<and> Len c' = Len c \<and> maxCost c' = maxCost c
           \<and> items c' = items c \<and> notified c' = notified c \<and> invar c'"
proof -
  let ?c' = "(touched c e)\<lparr>Value := (Value c)(e := (Value c e)\<lparr>val := v\<rparr>)\<rparr>"
  let ?f = "\<lambda>e. key (Value c e)"
  have mem: "e \<in> set (evictList c)" and ke: "?f e = k"
    using invar_lookup [OF inv res] by simp_all
  have d: "distinct (evictList c)" using inv by (simp add: invar_def)
  have l': "evictList ?c' = e # remove1 e (evictList c)"
    using mem by (simp add: touched_def MoveToFront_def)
  have kv: "key (Value ?c' e') = key (Value c e')" "cost (Value ?c' e') = cost (Value c e')" for e'
    by simp_all
  have "map (\<lambda>e. key (Value ?c' e)) (rev (evictList ?c')) = map ?f (rev (evictList ?c'))"
    by (intro map_cong) (simp_all only: kv)
  also have "\<dots> = rev (map ?f (remove1 e (evictList c))) @ [?f e]"
    unfolding l' by (simp add: rev_map)
  also have "\<dots> = filter (\<lambda>k'. k' \<noteq> k) (map ?f (rev (evictList c))) @ [k]"
    using map_remove1_inj [OF d invar_inj_on [OF inv] mem] ke by (simp add: rev_map rev_filter)
  finally have keys: "keysOf ?c' = filter (\<lambda>k'. k' \<noteq> k) (keysOf c) @ [k]"
    by (simp add: keysOf_def)
  have other: "Peek ?c' k' = Peek c k'" if "k' \<noteq> k" for k'
  proof (cases "items c k'")
    case None then show ?thesis by (simp add: Peek_def touched_def)
  next
    case (Some e')
    from invar_lookup(2) [OF inv Some] that ke have "e' \<noteq> e" by auto
    with Some show ?thesis by (simp add: Peek_def touched_def)
  qed
  have inv': "invar ?c'"
    using invar_revalue [OF invar_touched [OF inv, of e], of e v] by (simp add: touched_def)
  have len: "length (remove1 e (evictList c)) = length (evictList c) - 1"
    using mem by (simp add: length_remove1)
  have ne: "evictList c \<noteq> []" using mem by auto
  show ?thesis
    unfolding Add_old [OF res]
    apply (intro exI [of _ ?c'] conjI)
    subgoal by simp
    subgoal by (rule l')
    subgoal by (rule keys)
    subgoal using res by (simp add: Peek_def touched_def)
    subgoal using other by blast
    subgoal by simp
    subgoal by (simp add: Cost_def touched_def)
    subgoal using ne by (simp add: Len_def l' len)
    subgoal by (simp add: touched_def)
    subgoal by (simp add: touched_def)
    subgoal by (simp add: touched_def)
    subgoal by (rule inv')
    done
qed

theorem Add_existing_key_witness:
  "invar store12 \<and> items store12 1 = Some 0
   \<and> (\<exists>c'. Add store12 1 99 7 = Some (c', Inr 0) \<and> evictList c' = [0, 1]
          \<and> keysOf c' = [2, 1] \<and> Peek c' 1 = (Some 99, True) \<and> Peek c' 2 = (Some 22, True)
          \<and> cost (Value c' 0) = 4 \<and> Cost c' = 9 \<and> Len c' = 2 \<and> notified c' = [])"
proof -
  have h: "items store12 1 = Some 0" by (simp add: store12_def)
  from Add_existing_key [OF invar_store12 h, of 99 7] obtain c' where c':
    "Add store12 1 99 7 = Some (c', Inr 0)" "evictList c' = 0 # remove1 0 (evictList store12)"
    "keysOf c' = filter (\<lambda>k'. k' \<noteq> 1) (keysOf store12) @ [1]" "Peek c' 1 = (Some 99, True)"
    "\<forall>k'. k' \<noteq> 1 \<longrightarrow> Peek c' k' = Peek store12 k'"
    "\<forall>e'. cost (Value c' e') = cost (Value store12 e') \<and> key (Value c' e') = key (Value store12 e')"
    "Cost c' = Cost store12" "Len c' = Len store12" "notified c' = notified store12"
    by blast
  have 1: "evictList c' = [0, 1]" using c'(2) by (simp add: store12_def)
  have 2: "keysOf c' = [2, 1]" using c'(3) by (simp add: store12_def keysOf_def)
  have 3: "Peek c' 2 = (Some 22, True)" using c'(5) by (simp add: store12_def Peek_def)
  have 4: "cost (Value c' 0) = 4" using c'(6) by (simp add: store12_def)
  have 5: "Cost c' = 9" "Len c' = 2" "notified c' = []"
    using c'(7,8,9) by (simp_all add: store12_def Cost_def Len_def)
  from c'(1,4) 1 2 3 4 5 have
    "\<exists>c'. Add store12 1 99 7 = Some (c', Inr 0) \<and> evictList c' = [0, 1]
          \<and> keysOf c' = [2, 1] \<and> Peek c' 1 = (Some 99, True) \<and> Peek c' 2 = (Some 22, True)
          \<and> cost (Value c' 0) = 4 \<and> Cost c' = 9 \<and> Len c' = 2 \<and> notified c' = []"
    by blast
  with invar_store12 h show ?thesis by blast
qed

subsection \<open>C3: a new entry above the ceiling\<close>

text \<open>
  C3. \<^verbatim>\<open>Add\<close> of a key that is not resident with a cost above \<^verbatim>\<open>maxCost\<close> panics, and
  the store it leaves is the store it found: nothing is inserted, and \<^verbatim>\<open>Cost()\<close>,
  \<^verbatim>\<open>Len()\<close> and every resident entry are unchanged.
\<close>

theorem Add_oversized_panics:
  assumes "items c k = None" and "maxCost c <s cost'"
  shows "Add c k v cost' = Some (c, Inl (CostTooBig cost' (maxCost c)))"
  using assms by (simp add: Add_def)

theorem Add_oversized_panics_witness:
  "items store12 3 = None \<and> maxCost store12 <s 11
   \<and> Add store12 3 33 11 = Some (store12, Inl (CostTooBig 11 10))"
proof -
  have a: "items store12 3 = None" by (simp add: store12_def)
  have b: "maxCost store12 <s 11" by (simp add: store12_def word_sless_alt)
  have "maxCost store12 = 10" by (simp add: store12_def)
  with a b Add_oversized_panics [OF a b, of 33] show ?thesis by simp
qed

subsection \<open>C4: the order of \<^verbatim>\<open>Keys\<close>\<close>

text \<open>
  C4. On every store that satisfies the invariant of the representation, \<^verbatim>\<open>Keys()\<close>
  returns the keys of the list from its back to its front, without nil slot or panic; they
  are exactly the resident keys, each once. When distinct keys are added
  to a new store and no call evicts, \<^verbatim>\<open>Keys()\<close> returns them in the order of the calls.
\<close>

theorem Keys_oldest_to_newest:
  "(invar c \<longrightarrow>
      Keys c = Inr (map Some (keysOf c))
      \<and> keysOf c = map (\<lambda>e. key (Value c e)) (rev (evictList c))
      \<and> (\<forall>k. k \<in> set (keysOf c) \<longleftrightarrow> Contains c k)
      \<and> distinct (keysOf c) \<and> length (keysOf c) = Len c)
   \<and> (NewLRU mem m cb = Inr c0 \<and> distinct (map fst kvcs) \<and> addAll c0 kvcs = Some (c', 0) \<longrightarrow>
      Keys c' = Inr (map (\<lambda>(k, v, x). Some k) kvcs))"
proof (intro conjI impI)
  assume inv: "invar c"
  note K = invar_Keys [OF inv]
  show "Keys c = Inr (map Some (keysOf c))" by (rule K(1))
  show "keysOf c = map (\<lambda>e. key (Value c e)) (rev (evictList c))" by (simp add: keysOf_def)
  show "\<forall>k. k \<in> set (keysOf c) \<longleftrightarrow> Contains c k"
    using K(2) by (auto simp: Contains_def split: option.splits)
  show "distinct (keysOf c)" by (rule K(3))
  show "length (keysOf c) = Len c" by (simp add: keysOf_def Len_def)
next
  assume a: "NewLRU mem m cb = Inr c0 \<and> distinct (map fst kvcs) \<and> addAll c0 kvcs = Some (c', 0)"
  then have inv0: "invar c0" by (auto intro: invar_NewLRU)
  from a have e: "items c0 = Map.empty" "keysOf c0 = []"
    by (auto simp: NewLRU_def keysOf_def split: if_splits)
  from a addAll_no_eviction [OF inv0, of kvcs c'] e
  have "invar c'" "keysOf c' = map fst kvcs" by simp_all
  then show "Keys c' = Inr (map (\<lambda>(k, v, x). Some k) kvcs)"
    by (simp add: invar_Keys(1) case_prod_beta comp_def)
qed

theorem Keys_oldest_to_newest_witness:
  "invar store12 \<and> Keys store12 = Inr [Some 1, Some 2]
   \<and> NewLRU mem0 10 True = Inr store0 \<and> distinct (map fst [(1, 11, 4), (2 :: nat, 22 :: nat, 5 :: int64)])
   \<and> addAll store0 [(1, 11, 4), (2, 22, 5)] = Some (store12, 0)"
proof -
  let ?kvcs = "[(1, 11, 4), (2 :: nat, 22 :: nat, 5 :: int64)]"
  have d: "distinct (map fst ?kvcs)" by simp
  have a: "addAll store0 ?kvcs = Some (store12, 0)"
    by (simp add: store0_def store12_def eval_defs evictLoop_stop)
  note K = Keys_oldest_to_newest [of store12 mem0 10 True store0 ?kvcs store12]
  from K invar_store12 have "Keys store12 = Inr (map Some (keysOf store12))" by blast
  moreover from K New_store0 d a
  have "Keys store12 = Inr (map (\<lambda>(k, v, x). Some k) ?kvcs)" by blast
  ultimately have "Keys store12 = Inr [Some 1, Some 2]" by simp
  with invar_store12 New_store0 d a show ?thesis by blast
qed

subsection \<open>C5: the example of the README\<close>

text \<open>
  C5. On a new store of ceiling 128, adding 256 distinct keys, each with cost 2 and with
  no other call in between, returns normally every time; the numbers of evictions returned
  add up to 192, and afterwards \<^verbatim>\<open>Len() == 64\<close> (and \<^verbatim>\<open>Cost() == 128\<close>).
\<close>

theorem eviction_count_256:
  assumes "NewLRU mem 128 cb = Inr c0" and "distinct (map fst kvs)" and "length kvs = 256"
  shows "\<exists>c. addAll c0 (map (\<lambda>(k, v). (k, v, 2)) kvs) = Some (c, 192)
             \<and> Len c = 64 \<and> Cost c = 128"
proof -
  have inv0: "invar c0" using assms(1) by (rule invar_NewLRU)
  from assms(1) have e: "items c0 = Map.empty" "evictList c0 = []" "maxCost c0 = 128"
    by (auto simp: NewLRU_def split: if_splits)
  have f0: "filled c0 0" using inv0 e by (simp add: filled_def)
  from addAll_cost2 [OF f0 assms(2), of ] e(1) obtain c where c:
    "addAll c0 (map (\<lambda>(k, v). (k, v, 2)) kvs) = Some (c, (0 + length kvs - 64) - (0 - 64))"
    "filled c (0 + length kvs)"
    by auto
  from c(2) have "Len c = 64" by (simp add: filled_def Len_def assms(3))
  moreover from filled_cost [OF c(2)] this have "Cost c = 128" by (simp add: Cost_def Len_def)
  ultimately show ?thesis using c(1) by (simp add: assms(3))
qed

theorem eviction_count_256_witness:
  "NewLRU mem0 128 True = Inr store128 \<and> distinct (map fst readme_calls)
   \<and> length readme_calls = 256
   \<and> (\<exists>c. addAll store128 (map (\<lambda>(k, v). (k, v, 2)) readme_calls) = Some (c, 192)
          \<and> Len c = 64 \<and> Cost c = 128)"
proof -
  have n: "NewLRU mem0 128 True = Inr store128"
    by (simp add: NewLRU_def store128_def word_sle_eq)
  have d: "distinct (map fst readme_calls)" by (simp add: readme_calls_def comp_def)
  have l: "length readme_calls = 256" by (simp add: readme_calls_def)
  from eviction_count_256 [OF n d l] n d l show ?thesis by blast
qed

subsection \<open>C6: \<^verbatim>\<open>Resize\<close>\<close>

text \<open>
  C6, as amended. \<^verbatim>\<open>Resize\<close> panics on a ceiling that is not positive and leaves the
  store as it found it. With a positive ceiling not below \<^verbatim>\<open>Cost()\<close> it only sets the
  ceiling and returns 0. With a positive ceiling below \<^verbatim>\<open>Cost()\<close>, on a store that
  satisfies the invariant of the representation, it returns the number \<open>n > 0\<close> of entries
  it evicted: these are the \<open>n\<close> back-most entries of the list, the notifier is called for
  each, the oldest first, \<^verbatim>\<open>Cost()\<close> is at most the new ceiling afterwards, and it was
  above the new ceiling after each smaller number of evictions. Raising the ceiling evicts
  nothing and returns 0 when \<^verbatim>\<open>Cost() <= maxCost\<close> holds before the call; it holds on
  every store that a new store reaches by calls that return normally, supply non-negative
  costs and make no insertion that takes \<^verbatim>\<open>Cost() + cost\<close> beyond the largest
  \<^verbatim>\<open>int64\<close>.
\<close>

theorem Resize_behaviour:
  "(maxCost' \<le>s 0 \<longrightarrow> Resize c maxCost' = Some (c, Inl NonPositiveSize))
   \<and> (0 <s maxCost' \<and> Cost c \<le>s maxCost' \<longrightarrow>
        Resize c maxCost' = Some (c\<lparr>maxCost := maxCost'\<rparr>, Inr 0))
   \<and> (invar c \<and> 0 <s maxCost' \<and> maxCost' <s Cost c \<longrightarrow>
        (\<exists>n c'. Resize c maxCost' = Some (c', Inr n) \<and> 0 < n \<and> n \<le> Len c
           \<and> evictList c' = take (Len c - n) (evictList c)
           \<and> Len c' = Len c - n
           \<and> notified c' = notified c @
                (if onEvict c then map (notice c) (rev (drop (Len c - n) (evictList c))) else [])
           \<and> maxCost c' = maxCost' \<and> Cost c' \<le>s maxCost'
           \<and> (\<forall>i < n. maxCost' <s
                 Cost c - sum_list (map (\<lambda>e. cost (Value c e)) (drop (Len c - i) (evictList c))))
           \<and> invar c'))
   \<and> (0 <s maxCost c \<and> maxCost c \<le>s maxCost' \<and> Cost c \<le>s maxCost c \<longrightarrow>
        Resize c maxCost' = Some (c\<lparr>maxCost := maxCost'\<rparr>, Inr 0))
   \<and> (NewLRU mem m cb = Inr c0 \<and> nonneg_costs ops \<and> no_overflow c0 ops
        \<and> run c0 ops = Some c \<and> maxCost c \<le>s maxCost' \<longrightarrow>
        Resize c maxCost' = Some (c\<lparr>maxCost := maxCost'\<rparr>, Inr 0))"
proof (intro conjI impI)
  assume "maxCost' \<le>s 0"
  then show "Resize c maxCost' = Some (c, Inl NonPositiveSize)" by (simp add: Resize_def)
next
  assume a: "0 <s maxCost' \<and> Cost c \<le>s maxCost'"
  then have "\<not> maxCost' \<le>s 0" "\<not> maxCost' <s evictListCost c"
    by (auto simp: word_sle_eq word_sless_alt Cost_def)
  then show "Resize c maxCost' = Some (c\<lparr>maxCost := maxCost'\<rparr>, Inr 0)"
    by (simp add: Resize_def) (subst evictLoop.simps, simp)
next
  assume a: "invar c \<and> 0 <s maxCost' \<and> maxCost' <s Cost c"
  let ?d = "c\<lparr>maxCost := maxCost'\<rparr>" and ?l = "evictList c"
  from a have pos: "\<not> maxCost' \<le>s 0" by (auto simp: word_sle_eq word_sless_alt)
  from a have invd: "invar ?d" by (simp add: invar_def)
  have V: "Value ?d = Value c" by simp
  from evictLoop_returns [OF invd, of 0] obtain n where n:
    "n \<le> length ?l" "evictLoop ?d 0 = Some ((removeOldest ^^ n) ?d, n)"
    "evictListCost ((removeOldest ^^ n) ?d) \<le>s maxCost'"
    "\<forall>i < n. maxCost' <s evictListCost ((removeOldest ^^ i) ?d)"
    by auto
  let ?c' = "(removeOldest ^^ n) ?d"
  have 1: "0 < n"
  proof (rule ccontr)
    assume "\<not> 0 < n"
    then have "n = 0" by simp
    with n(3) a show False by (simp add: Cost_def word_sle_eq word_sless_alt)
  qed
  have nd: "n \<le> length (evictList ?d)" using n(1) by simp
  note F = funpow_removeOldest [OF invd nd]
  have 2: "Resize c maxCost' = Some (?c', Inr n)" using pos n(2) by (simp add: Resize_def)
  have 3: "\<forall>i < n. maxCost' <s
             Cost c - sum_list (map (\<lambda>e. cost (Value c e)) (drop (Len c - i) ?l))"
  proof (intro allI impI)
    fix i assume i: "i < n"
    with n(1) have "i \<le> length (evictList ?d)" by simp
    note eq = funpow_removeOldest(4) [OF invd this]
    from n(4) i have "maxCost' <s evictListCost ((removeOldest ^^ i) ?d)" by blast
    with eq
    show "maxCost' <s Cost c - sum_list (map (\<lambda>e. cost (Value c e)) (drop (Len c - i) ?l))"
      by (simp add: Cost_def Len_def)
  qed
  show "\<exists>n c'. Resize c maxCost' = Some (c', Inr n) \<and> 0 < n \<and> n \<le> Len c
           \<and> evictList c' = take (Len c - n) (evictList c)
           \<and> Len c' = Len c - n
           \<and> notified c' = notified c @
                (if onEvict c then map (notice c) (rev (drop (Len c - n) (evictList c))) else [])
           \<and> maxCost c' = maxCost' \<and> Cost c' \<le>s maxCost'
           \<and> (\<forall>i < n. maxCost' <s
                 Cost c - sum_list (map (\<lambda>e. cost (Value c e)) (drop (Len c - i) (evictList c))))
           \<and> invar c'"
    apply (intro exI [of _ n] exI [of _ ?c'] conjI)
    subgoal by (rule 2)
    subgoal by (rule 1)
    subgoal using n(1) by (simp add: Len_def)
    subgoal using F(2) by (simp add: Len_def)
    subgoal using F(2) n(1) by (simp add: Len_def)
    subgoal using F(5) by (simp add: Len_def notice_cong [OF V])
    subgoal by simp
    subgoal using n(3) by (simp add: Cost_def)
    subgoal by (rule 3)
    subgoal by (rule F(1))
    done
next
  assume "0 <s maxCost c \<and> maxCost c \<le>s maxCost' \<and> Cost c \<le>s maxCost c"
  then show "Resize c maxCost' = Some (c\<lparr>maxCost := maxCost'\<rparr>, Inr 0)"
    by (intro Resize_raise) simp_all
next
  assume "NewLRU mem m cb = Inr c0 \<and> nonneg_costs ops \<and> no_overflow c0 ops
        \<and> run c0 ops = Some c \<and> maxCost c \<le>s maxCost'"
  then show "Resize c maxCost' = Some (c\<lparr>maxCost := maxCost'\<rparr>, Inr 0)"
    by (intro Resize_raise_reachable [of mem m cb c0 ops]) simp_all
qed

theorem Resize_behaviour_witness:
  "(0 :: int64) \<le>s 0 \<and> Resize store12 0 = Some (store12, Inl NonPositiveSize)
   \<and> 0 <s (20 :: int64) \<and> Cost store12 \<le>s 20
   \<and> Resize store12 20 = Some (store12\<lparr>maxCost := 20\<rparr>, Inr 0)
   \<and> invar store12 \<and> 0 <s (5 :: int64) \<and> 5 <s Cost store12
   \<and> (\<exists>n c'. Resize store12 5 = Some (c', Inr n) \<and> 0 < n \<and> n \<le> Len store12
          \<and> evictList c' = take (Len store12 - n) (evictList store12)
          \<and> Len c' = Len store12 - n \<and> maxCost c' = 5 \<and> Cost c' \<le>s 5)
   \<and> 0 <s maxCost store12 \<and> maxCost store12 \<le>s 15 \<and> Cost store12 \<le>s maxCost store12
   \<and> Resize store12 15 = Some (store12\<lparr>maxCost := 15\<rparr>, Inr 0)
   \<and> NewLRU mem0 5 True = Inr store5 \<and> nonneg_costs small_ops
   \<and> no_overflow store5 small_ops
   \<and> (\<exists>c. run store5 small_ops = Some c \<and> maxCost c \<le>s 7
          \<and> Resize c 7 = Some (c\<lparr>maxCost := 7\<rparr>, Inr 0))"
proof -
  have a: "(0 :: int64) \<le>s 0" by simp
  have b: "0 <s (20 :: int64) \<and> Cost store12 \<le>s 20"
    by (simp add: store12_def Cost_def word_sle_eq word_sless_alt)
  have c: "invar store12 \<and> 0 <s (5 :: int64) \<and> 5 <s Cost store12"
    using invar_store12 by (simp add: store12_def Cost_def word_sless_alt)
  have d: "0 <s maxCost store12 \<and> maxCost store12 \<le>s 15 \<and> Cost store12 \<le>s maxCost store12"
    by (simp add: store12_def Cost_def word_sle_eq word_sless_alt)
  have nn: "nonneg_costs small_ops"
    by (simp add: nonneg_costs_def small_ops_def word_sle_eq)
  from run_small_ops(2) obtain c5 where c5: "run store5 small_ops = Some c5" "maxCost c5 = 5"
    by auto
  have e: "maxCost c5 \<le>s 7" by (simp add: c5(2) word_sle_eq)
  from Resize_behaviour [of 0 store12] a
  have 1: "Resize store12 0 = Some (store12, Inl NonPositiveSize)" by blast
  from Resize_behaviour [of 20 store12] b
  have 2: "Resize store12 20 = Some (store12\<lparr>maxCost := 20\<rparr>, Inr 0)" by blast
  from Resize_behaviour [of 5 store12] c
  have 3: "\<exists>n c'. Resize store12 5 = Some (c', Inr n) \<and> 0 < n \<and> n \<le> Len store12
          \<and> evictList c' = take (Len store12 - n) (evictList store12)
          \<and> Len c' = Len store12 - n \<and> maxCost c' = 5 \<and> Cost c' \<le>s 5"
    by blast
  from Resize_behaviour [of 15 store12] d
  have 4: "Resize store12 15 = Some (store12\<lparr>maxCost := 15\<rparr>, Inr 0)" by blast
  from Resize_behaviour [of 7 c5 mem0 5 True store5 small_ops]
    New_store5 nn run_small_ops(3) c5(1) e
  have "Resize c5 7 = Some (c5\<lparr>maxCost := 7\<rparr>, Inr 0)" by blast
  with c5(1) e have 5: "\<exists>c. run store5 small_ops = Some c \<and> maxCost c \<le>s 7
          \<and> Resize c 7 = Some (c\<lparr>maxCost := 7\<rparr>, Inr 0)" by blast
  from a b c d 1 2 3 4 5 New_store5 nn run_small_ops(3) show ?thesis by blast
qed

text \<open>
  C6 as stated says that raising the ceiling never evicts, on every store. It does evict
  on the store that \<open>overflow_ops\<close> leave, which a new store reaches by four calls that
  return normally with non-negative costs: its ceiling is 1, its accumulator \<open>2^63 - 1\<close>
  and its list has one entry. \<^verbatim>\<open>Resize(2)\<close> raises the ceiling, finds the accumulator
  above it, evicts the entry and returns 1.
\<close>

theorem Resize_raise_evicts_counterexample:
  "NewLRU mem0 (2 ^ 63 - 1) False = Inr store_max \<and> nonneg_costs overflow_ops
   \<and> run store_max overflow_ops = Some store_over
   \<and> maxCost store_over <s 2 \<and> Len store_over = 1
   \<and> map_option snd (Resize store_over 2) = Some (Inr 1)
   \<and> map_option (Len \<circ> fst) (Resize store_over 2) = Some 0"
  using New_store_max run_overflow_store Resize_store_over
  by (simp add: nonneg_costs_def overflow_ops_def word_sle_eq)

subsection \<open>C7: \<^verbatim>\<open>Purge\<close>\<close>

text \<open>
  C7. On every store that satisfies the invariant of the representation, whatever the
  order in which the map iteration produces the keys, after \<^verbatim>\<open>Purge\<close>
  \<^verbatim>\<open>Len() == 0\<close>, \<^verbatim>\<open>Cost() == 0\<close>, no key is resident and \<^verbatim>\<open>Keys()\<close> is empty. When a
  notifier is set, the calls made to it during \<^verbatim>\<open>Purge\<close> are, as a multiset, one call per
  entry that was in the list, with the key, value and cost of that entry; without a
  notifier no call is made.
\<close>

theorem Purge_complete:
  assumes inv: "invar c" and d: "distinct order" and s: "set order = dom (items c)"
  shows "Len (Purge c order) = 0 \<and> Cost (Purge c order) = 0
         \<and> (\<forall>k. \<not> Contains (Purge c order) k) \<and> Keys (Purge c order) = Inr []
         \<and> (\<exists>calls. notified (Purge c order) = notified c @ calls
               \<and> (onEvict c \<longrightarrow> mset calls = mset (map (notice c) (evictList c)))
               \<and> (\<not> onEvict c \<longrightarrow> calls = []))
         \<and> maxCost (Purge c order) = maxCost c \<and> invar (Purge c order)"
proof -
  note F = Purge_fields [OF d, of c]
  have it: "items (Purge c order) = Map.empty" using s by (auto simp: F(4) fun_eq_iff)
  let ?calls = "if onEvict c then map (notice c) (visited c order) else []"
  have m: "onEvict c \<longrightarrow> mset ?calls = mset (map (notice c) (evictList c))"
    using visited_elements [OF inv d s] by simp
  have 1: "Len (Purge c order) = 0" by (simp add: Len_def F(1))
  have 2: "Cost (Purge c order) = 0" by (simp add: Cost_def F(2))
  have 3: "\<forall>k. \<not> Contains (Purge c order) k" by (simp add: Contains_def it)
  have 4: "Keys (Purge c order) = Inr []" by (simp add: Keys_def it F(1))
  from F(5) m have "\<exists>calls. notified (Purge c order) = notified c @ calls
               \<and> (onEvict c \<longrightarrow> mset calls = mset (map (notice c) (evictList c)))
               \<and> (\<not> onEvict c \<longrightarrow> calls = [])"
    by (intro exI [of _ ?calls]) simp
  with 1 2 3 4 F(3) invar_Purge [OF inv d s] show ?thesis by blast
qed

theorem Purge_complete_witness:
  "invar store12 \<and> distinct [2, 1 :: nat] \<and> set [2, 1] = dom (items store12)
   \<and> Len (Purge store12 [2, 1]) = 0 \<and> Cost (Purge store12 [2, 1]) = 0
   \<and> (\<forall>k. \<not> Contains (Purge store12 [2, 1]) k)
   \<and> (\<exists>calls. notified (Purge store12 [2, 1]) = calls
          \<and> mset calls = {#(1, 11, 4), (2, 22, 5)#})"
proof -
  have d: "distinct [2, 1 :: nat]" by simp
  have s: "set [2, 1] = dom (items store12)" by (auto simp: store12_def)
  from Purge_complete [OF invar_store12 d s] obtain calls where c:
    "Len (Purge store12 [2, 1]) = 0" "Cost (Purge store12 [2, 1]) = 0"
    "\<forall>k. \<not> Contains (Purge store12 [2, 1]) k"
    "notified (Purge store12 [2, 1]) = notified store12 @ calls"
    "onEvict store12 \<longrightarrow> mset calls = mset (map (notice store12) (evictList store12))"
    by blast
  have "onEvict store12" "notified store12 = []" by (simp_all add: store12_def)
  with c(4,5) have "notified (Purge store12 [2, 1]) = calls"
    "mset calls = mset (map (notice store12) (evictList store12))" by simp_all
  moreover have "mset (map (notice store12) (evictList store12)) = {#(1, 11, 4), (2, 22, 5)#}"
    by (simp add: store12_def notice_def)
  ultimately have "\<exists>calls. notified (Purge store12 [2, 1]) = calls
          \<and> mset calls = {#(1, 11, 4), (2, 22, 5)#}" by simp
  with invar_store12 d s c(1,2,3) show ?thesis by blast
qed

subsection \<open>C8: \<^verbatim>\<open>Peek\<close> and \<^verbatim>\<open>Contains\<close>\<close>

text \<open>
  C8. \<^verbatim>\<open>Peek\<close> returns what \<^verbatim>\<open>Get\<close> returns, and \<^verbatim>\<open>Contains\<close> its second component.
  Neither assigns anything, so neither returns a store: the store after the call is the
  store before it, with its list, \<^verbatim>\<open>Cost()\<close> and \<^verbatim>\<open>Len()\<close>. In particular, on a new
  store of ceiling 2, after \<^verbatim>\<open>Add(a, _, 1)\<close>, \<^verbatim>\<open>Add(b, _, 1)\<close> and \<^verbatim>\<open>Peek(a)\<close>, the call
  \<^verbatim>\<open>Add(d, _, 1)\<close> evicts \<open>a\<close> and keeps \<open>b\<close>; with \<^verbatim>\<open>Get(a)\<close> in the place of
  \<^verbatim>\<open>Peek(a)\<close> it evicts \<open>b\<close> and keeps \<open>a\<close>.
\<close>

theorem Peek_does_not_reorder:
  "Peek c k = snd (Get c k) \<and> Contains c k = snd (Peek c k)
   \<and> step c (OpPeek k) = Some c \<and> step c (OpContains k) = Some c
   \<and> (a \<noteq> b \<and> a \<noteq> d \<and> b \<noteq> d \<and> NewLRU mem 2 cb = Inr c0 \<longrightarrow>
        (\<exists>c2 c3. run c0 [OpAdd a va 1, OpAdd b vb 1, OpPeek a] = Some c2
           \<and> Peek c2 a = (Some va, True)
           \<and> Add c2 d vd 1 = Some (c3, Inr 1)
           \<and> Keys c3 = Inr [Some b, Some d] \<and> \<not> Contains c3 a \<and> Contains c3 b
           \<and> notified c3 = (if cb then [(a, va, 1)] else []))
        \<and> (\<exists>c2 c3. run c0 [OpAdd a va 1, OpAdd b vb 1, OpGet a] = Some c2
           \<and> Add c2 d vd 1 = Some (c3, Inr 1)
           \<and> Keys c3 = Inr [Some a, Some d] \<and> Contains c3 a \<and> \<not> Contains c3 b
           \<and> notified c3 = (if cb then [(b, vb, 1)] else [])))"
proof (intro conjI impI)
  show "Peek c k = snd (Get c k)" by (simp add: Peek_def Get_def split: option.splits)
  show "Contains c k = snd (Peek c k)" by (simp add: Peek_def Contains_def split: option.splits)
  show "step c (OpPeek k) = Some c" "step c (OpContains k) = Some c" by simp_all
next
  assume h: "a \<noteq> b \<and> a \<noteq> d \<and> b \<noteq> d \<and> NewLRU mem 2 cb = Inr c0"
  then have ne: "a \<noteq> b" "a \<noteq> d" "b \<noteq> d" "b \<noteq> a" "d \<noteq> a" "d \<noteq> b" by auto
  let ?c0 = "\<lparr>maxCost = 2, evictList = [], evictListCost = 0, items = Map.empty,
              onEvict = cb, Value = mem, fresh = 0, notified = []\<rparr>"
  from h have c0: "c0 = ?c0" by (simp add: NewLRU_def word_sle_eq)
  obtain c1 where c1: "c1 = pushed ?c0 a va 1" by simp
  obtain c2 where c2: "c2 = pushed c1 b vb 1" by simp
  have i1: "invar c1" unfolding c1 by (intro invar_pushed) (simp_all add: invar_def word_sless_alt)
  have n1: "items c1 b = None" using ne by (simp add: c1)
  have i2: "invar c2" unfolding c2 using i1 n1 by (rule invar_pushed)
  have a1: "Add ?c0 a va 1 = Some (c1, Inr 0)"
    by (simp add: Add_new c1 evictLoop_stop word_sless_alt)
  have a2: "Add c1 b vb 1 = Some (c2, Inr 0)"
    using n1 by (simp add: Add_new c2 c1 evictLoop_stop word_sless_alt)
  have run2: "run c0 [OpAdd a va 1, OpAdd b vb 1, OpPeek a] = Some c2"
    by (simp add: c0 a1 a2)
  have l2: "evictList c2 = [1, 0]" "evictListCost c2 = 2" "maxCost c2 = 2" "items c2 d = None"
    "items c2 a = Some 0"
    using ne by (simp_all add: c2 c1)
  have pk: "Peek c2 a = (Some va, True)" using ne by (simp add: Peek_def c2 c1)
  \<comment> \<open>after \<open>Peek\<close>: the back of the list is still the element of \<open>a\<close>\<close>
  let ?p = "pushed c2 d vd 1"
  obtain c3 where c3: "c3 = removeOldest ?p" by simp
  have go: "maxCost ?p <s evictListCost ?p" by (simp add: l2 word_sless_alt)
  have lp: "evictList ?p = [2, 1, 0]" by (simp add: l2) (simp add: c2 c1)
  have nep: "evictList ?p \<noteq> []" unfolding lp by simp
  have c3': "c3 = removeElement ?p 0" unfolding c3 removeOldest_nonempty [OF nep] lp by simp
  have st: "\<not> maxCost c3 <s evictListCost c3"
    using ne by (simp add: c3' l2 word_sless_alt) (simp add: c2 c1)
  have a3: "Add c2 d vd 1 = Some (c3, Inr 1)"
    using l2(4) by (simp add: Add_new l2 word_sless_alt evictLoop_go [OF go] evictLoop_stop [OF st, folded c3] flip: c3)
  have i3: "invar c3" unfolding c3 by (intro invar_removeOldest invar_pushed i2 l2)
  have k3: "keysOf c3 = [b, d]" using ne by (simp add: keysOf_def c3' lp) (simp add: c2 c1)
  have K3: "Keys c3 = Inr [Some b, Some d]" using invar_Keys(1) [OF i3] k3 by simp
  have m3: "\<not> Contains c3 a" "Contains c3 b"
    using ne by (simp_all add: Contains_def c3') (simp_all add: c2 c1)
  have t3: "notified c3 = (if cb then [(a, va, 1)] else [])"
    using ne by (simp add: c3' notice_def) (simp add: c2 c1)
  from run2 pk a3 K3 m3 t3
  show "\<exists>c2 c3. run c0 [OpAdd a va 1, OpAdd b vb 1, OpPeek a] = Some c2
           \<and> Peek c2 a = (Some va, True)
           \<and> Add c2 d vd 1 = Some (c3, Inr 1)
           \<and> Keys c3 = Inr [Some b, Some d] \<and> \<not> Contains c3 a \<and> Contains c3 b
           \<and> notified c3 = (if cb then [(a, va, 1)] else [])"
    by blast
  \<comment> \<open>after \<open>Get\<close>: the element of \<open>a\<close> is at the front\<close>
  obtain g2 where g2: "g2 = touched c2 0" by simp
  have ig: "invar g2" unfolding g2 using i2 by (rule invar_touched)
  have rung: "run c0 [OpAdd a va 1, OpAdd b vb 1, OpGet a] = Some g2"
    by (simp add: c0 a1 a2 Get_def l2 g2 touched_def)
  have lg: "evictList g2 = [0, 1]" "evictListCost g2 = 2" "maxCost g2 = 2" "items g2 d = None"
    using l2 by (simp_all add: g2 touched_def MoveToFront_def)
  let ?q = "pushed g2 d vd 1"
  obtain g3 where g3: "g3 = removeOldest ?q" by simp
  have gog: "maxCost ?q <s evictListCost ?q" by (simp add: lg word_sless_alt)
  have lq: "evictList ?q = [2, 0, 1]" by (simp add: lg) (simp add: g2 touched_def MoveToFront_def c2 c1)
  have neq: "evictList ?q \<noteq> []" unfolding lq by simp
  have g3': "g3 = removeElement ?q 1" unfolding g3 removeOldest_nonempty [OF neq] lq by simp
  have stg: "\<not> maxCost g3 <s evictListCost g3"
    using ne by (simp add: g3' lg word_sless_alt) (simp add: g2 touched_def MoveToFront_def c2 c1)
  have b3: "Add g2 d vd 1 = Some (g3, Inr 1)"
    using lg(4) by (simp add: Add_new lg word_sless_alt evictLoop_go [OF gog] evictLoop_stop [OF stg, folded g3] flip: g3)
  have j3: "invar g3" unfolding g3 by (intro invar_removeOldest invar_pushed ig lg)
  have kg: "keysOf g3 = [a, d]"
    using ne by (simp add: keysOf_def g3' lq) (simp add: g2 touched_def MoveToFront_def c2 c1)
  have Kg: "Keys g3 = Inr [Some a, Some d]" using invar_Keys(1) [OF j3] kg by simp
  have mg: "Contains g3 a" "\<not> Contains g3 b"
    using ne by (simp_all add: Contains_def g3') (simp_all add: g2 touched_def MoveToFront_def c2 c1)
  have tg: "notified g3 = (if cb then [(b, vb, 1)] else [])"
    using ne by (simp add: g3' notice_def) (simp add: g2 touched_def MoveToFront_def c2 c1)
  from rung b3 Kg mg tg
  show "\<exists>c2 c3. run c0 [OpAdd a va 1, OpAdd b vb 1, OpGet a] = Some c2
           \<and> Add c2 d vd 1 = Some (c3, Inr 1)
           \<and> Keys c3 = Inr [Some a, Some d] \<and> Contains c3 a \<and> \<not> Contains c3 b
           \<and> notified c3 = (if cb then [(b, vb, 1)] else [])"
    by blast
qed

theorem Peek_does_not_reorder_witness:
  "(1 :: nat) \<noteq> 2 \<and> (1 :: nat) \<noteq> 3 \<and> (2 :: nat) \<noteq> 3 \<and> NewLRU mem0 2 True = Inr store2
   \<and> (\<exists>c2 c3. run store2 [OpAdd 1 11 1, OpAdd 2 22 1, OpPeek 1] = Some c2
          \<and> Peek c2 1 = (Some 11, True)
          \<and> Add c2 3 33 1 = Some (c3, Inr 1)
          \<and> Keys c3 = Inr [Some 2, Some 3] \<and> \<not> Contains c3 1 \<and> Contains c3 2
          \<and> notified c3 = [(1, 11, 1)])"
proof -
  have n: "NewLRU mem0 2 True = Inr store2" by (simp add: NewLRU_def store2_def word_sle_eq)
  have h: "(1 :: nat) \<noteq> 2 \<and> (1 :: nat) \<noteq> 3 \<and> (2 :: nat) \<noteq> 3 \<and> NewLRU mem0 2 True = Inr store2"
    using n by simp
  from Peek_does_not_reorder [of store2 1 1 2 3 mem0 True store2 11 22 33] h
  have "\<exists>c2 c3. run store2 [OpAdd 1 11 1, OpAdd 2 22 1, OpPeek 1] = Some c2
          \<and> Peek c2 1 = (Some 11, True)
          \<and> Add c2 3 33 1 = Some (c3, Inr 1)
          \<and> Keys c3 = Inr [Some 2, Some 3] \<and> \<not> Contains c3 1 \<and> Contains c3 2
          \<and> notified c3 = (if True then [(1, 11, 1)] else [])"
    by blast
  with h show ?thesis by simp
qed

subsection \<open>C9: a resident key and a cost above the ceiling\<close>

text \<open>
  C9. \<^verbatim>\<open>Add\<close> of a resident key returns 0 for every cost, also one above \<^verbatim>\<open>maxCost\<close>:
  the test of the cost comes after the branch for a resident key. The value is replaced,
  \<^verbatim>\<open>Cost()\<close> and \<^verbatim>\<open>maxCost\<close> stay.
\<close>

theorem Add_resident_never_fails:
  assumes "items c k = Some e"
  shows "\<exists>c'. Add c k v cost' = Some (c', Inr 0) \<and> Peek c' k = (Some v, True)
              \<and> Cost c' = Cost c \<and> maxCost c' = maxCost c"
  using assms by (simp add: Add_def Let_def Peek_def Cost_def)

theorem Add_resident_never_fails_witness:
  "items store12 2 = Some 1 \<and> maxCost store12 <s 1000
   \<and> (\<exists>c'. Add store12 2 5 1000 = Some (c', Inr 0) \<and> Peek c' 2 = (Some 5, True)
          \<and> Cost c' = Cost store12 \<and> maxCost c' = maxCost store12)"
proof -
  have h: "items store12 2 = Some 1" by (simp add: store12_def)
  have b: "maxCost store12 <s 1000" by (simp add: store12_def word_sless_alt)
  from Add_resident_never_fails [OF h, of 5 1000] h b show ?thesis by blast
qed

subsection \<open>C10: \<^verbatim>\<open>GetOldest\<close> and \<^verbatim>\<open>RemoveOldest\<close>\<close>

text \<open>
  C10. \<^verbatim>\<open>RemoveOldest\<close> returns what \<^verbatim>\<open>GetOldest\<close> returns on the same store. On an
  empty store that is \<^verbatim>\<open>(nil, nil, false)\<close> and \<^verbatim>\<open>RemoveOldest\<close> leaves the store as it
  is. Otherwise it is the key and value of the back-most entry with \<^verbatim>\<open>true\<close>, and
  \<^verbatim>\<open>RemoveOldest\<close> removes that entry: on a store that satisfies the invariant of the
  representation the list loses its last element, the key is no longer resident and the
  notifier, if set, is called once for that entry.
  \<^verbatim>\<open>GetOldest\<close> assigns nothing, so it returns no store.
\<close>

theorem Oldest_agreement:
  "snd (RemoveOldest c) = GetOldest c
   \<and> (evictList c = [] \<longrightarrow>
        GetOldest c = (None, None, False) \<and> RemoveOldest c = (c, None, None, False))
   \<and> (evictList c \<noteq> [] \<longrightarrow>
        GetOldest c = (Some (key (Value c (last (evictList c)))),
                       Some (val (Value c (last (evictList c)))), True)
        \<and> fst (RemoveOldest c) = removeElement c (last (evictList c)))
   \<and> (invar c \<and> evictList c \<noteq> [] \<longrightarrow>
        evictList (fst (RemoveOldest c)) = butlast (evictList c)
        \<and> \<not> Contains (fst (RemoveOldest c)) (key (Value c (last (evictList c))))
        \<and> notified (fst (RemoveOldest c)) =
            notified c @ (if onEvict c then [notice c (last (evictList c))] else []))"
proof (cases "evictList c = []")
  case True
  then show ?thesis by (simp add: RemoveOldest_def GetOldest_def Back_def)
next
  case False
  have "invar c \<Longrightarrow> remove1 (last (evictList c)) (evictList c) = butlast (evictList c)"
    using False by (simp add: remove1_last invar_def)
  with False show ?thesis
    by (simp add: RemoveOldest_def GetOldest_def Back_def Let_def Contains_def)
qed

theorem Oldest_agreement_witness:
  "invar store12 \<and> evictList store12 \<noteq> [] \<and> GetOldest store12 = (Some 1, Some 11, True)
   \<and> snd (RemoveOldest store12) = (Some 1, Some 11, True)
   \<and> evictList (fst (RemoveOldest store12)) = [1]
   \<and> \<not> Contains (fst (RemoveOldest store12)) 1
   \<and> notified (fst (RemoveOldest store12)) = [(1, 11, 4)]
   \<and> evictList store0 = [] \<and> GetOldest store0 = (None, None, False)
   \<and> RemoveOldest store0 = (store0, None, None, False)"
proof -
  have ne: "evictList store12 \<noteq> []" and e: "evictList store0 = []"
    by (simp_all add: store12_def store0_def)
  note A = Oldest_agreement [of store12] and B = Oldest_agreement [of store0]
  from A ne have 1: "GetOldest store12 = (Some (key (Value store12 (last (evictList store12)))),
                       Some (val (Value store12 (last (evictList store12)))), True)" by blast
  then have 2: "GetOldest store12 = (Some 1, Some 11, True)" by (simp add: store12_def)
  from A 2 have 3: "snd (RemoveOldest store12) = (Some 1, Some 11, True)" by simp
  from A ne invar_store12 have
    "evictList (fst (RemoveOldest store12)) = butlast (evictList store12)"
    "\<not> Contains (fst (RemoveOldest store12)) (key (Value store12 (last (evictList store12))))"
    "notified (fst (RemoveOldest store12)) =
       notified store12 @ (if onEvict store12 then [notice store12 (last (evictList store12))] else [])"
    by blast+
  then have 4: "evictList (fst (RemoveOldest store12)) = [1]"
    "\<not> Contains (fst (RemoveOldest store12)) 1"
    "notified (fst (RemoveOldest store12)) = [(1, 11, 4)]"
    by (simp_all add: store12_def notice_def)
  from B e have 5: "GetOldest store0 = (None, None, False)"
    "RemoveOldest store0 = (store0, None, None, False)" by blast+
  from invar_store12 ne 2 3 4 e 5 show ?thesis by blast
qed

end
